theory Spec2Isabelle
  imports Main
begin

section \<open>Nodes and the store that holds them\<close>

text \<open>
  The Go package keeps a flat slice of node references. A node is the struct
  \<^verbatim>\<open>Node\<close> of node.go; the container only ever sees it through a pointer, so a
  node mutated by the container is seen changed by every holder of the pointer.
  The model makes this explicit: a reference is an address, and the store maps
  every address to the node record that lives there. The values of type
  \<^verbatim>\<open>int64\<close> are modelled as mathematical integers. After \<open>k\<close> calls on a new
  container with a zero-valued root every bound written by the container lies
  between 0 and \<open>2 * k + 1\<close> (lemma \<open>coordinates_stay_small\<close> at the end), so
  wrap-around is out of reach of the states built through the methods. The
  statement about \<^verbatim>\<open>Add\<close> on a collection with arbitrary stored values asks that
  the sums it computes stay in the range of \<^verbatim>\<open>int64\<close>.
\<close>

record Node =
  NodeId :: int
  NodeName :: string
  NodeLevel :: int
  NodeLeft :: int
  NodeRight :: int

type_synonym ref = nat

type_synonym store = "ref \<Rightarrow> Node"

definition GetLevel :: "store \<Rightarrow> ref \<Rightarrow> int" where
  "GetLevel h n = NodeLevel (h n)"

definition GetLeft :: "store \<Rightarrow> ref \<Rightarrow> int" where
  "GetLeft h n = NodeLeft (h n)"

definition GetRight :: "store \<Rightarrow> ref \<Rightarrow> int" where
  "GetRight h n = NodeRight (h n)"

definition GetId :: "store \<Rightarrow> ref \<Rightarrow> int" where
  "GetId h n = NodeId (h n)"

definition SetLevel :: "ref \<Rightarrow> int \<Rightarrow> store \<Rightarrow> store" where
  "SetLevel n v h = h(n := (h n)\<lparr>NodeLevel := v\<rparr>)"

definition SetLeft :: "ref \<Rightarrow> int \<Rightarrow> store \<Rightarrow> store" where
  "SetLeft n v h = h(n := (h n)\<lparr>NodeLeft := v\<rparr>)"

definition SetRight :: "ref \<Rightarrow> int \<Rightarrow> store \<Rightarrow> store" where
  "SetRight n v h = h(n := (h n)\<lparr>NodeRight := v\<rparr>)"

section \<open>The container\<close>

text \<open>
  \<^verbatim>\<open>NestedSet\<close> of ns.go: the slice of references, the root reference and the
  counter. The mutex is left out: every public method holds it from entry to
  exit, so the methods run one at a time. The store is carried along with the
  container, since the methods write through the references.
\<close>

record NestedSet =
  mem :: store
  nodes :: "ref list"
  rootNode :: ref
  maxId :: int

text \<open>
  A method of the Go code either returns nil, returns an error built by
  \<^verbatim>\<open>errors.New\<close>, or panics on a nil interface value. Each error constructor
  stands for one message of ns.go.
\<close>

datatype error =
    ParentNotFound
  | CantDeleteRoot
  | NodeNotFound
  | CantMoveRoot
  | MoveWithinItself
  | StructureBroken
  | SameBranchNotImplemented

datatype outcome = Success | Failure error | Fault

datatype 'a answer = Returns 'a | Faults

text \<open>\<^verbatim>\<open>NewNestedSet\<close>: only the right bound of the root is written.\<close>

definition NewNestedSet :: "store \<Rightarrow> ref option \<Rightarrow> NestedSet answer" where
  "NewNestedSet h root =
     (case root of
        None \<Rightarrow> Faults
      | Some r \<Rightarrow>
          Returns \<lparr>mem = SetRight r 1 h, nodes = [] @ [r], rootNode = r, maxId = 0\<rparr>)"

text \<open>\<^verbatim>\<open>exists\<close>: a scan of the slice comparing references.\<close>

primrec exists_in :: "ref list \<Rightarrow> ref \<Rightarrow> bool" where
  "exists_in [] node = False"
| "exists_in (n # ns) node = (if n = node then True else exists_in ns node)"

definition exists_node :: "NestedSet \<Rightarrow> ref \<Rightarrow> bool" where
  "exists_node s node = exists_in (nodes s) node"

subsection \<open>Add\<close>

text \<open>One iteration of the widening loop of \<^verbatim>\<open>Add\<close>, on the node \<open>n\<close>.\<close>

definition widen :: "int \<Rightarrow> ref \<Rightarrow> store \<Rightarrow> store" where
  "widen right n h =
     (if GetRight h n \<ge> right then
        (let h1 = SetRight n (GetRight h n + 2) h in
         if GetLeft h1 n > right then SetLeft n (GetLeft h1 n + 2) h1 else h1)
      else h)"

definition Add :: "NestedSet \<Rightarrow> ref option \<Rightarrow> ref option \<Rightarrow> outcome \<times> NestedSet" where
  "Add s newNode parent =
     (case (case parent of
              Some p \<Rightarrow> if \<not> exists_node s p then None else Some p
            | None \<Rightarrow> Some (rootNode s)) of
        None \<Rightarrow> (Failure ParentNotFound, s)
      | Some p \<Rightarrow>
          (let level = GetLevel (mem s) p + 1;
               right = GetRight (mem s) p
           in case newNode of
                None \<Rightarrow> (Fault, s)
              | Some nn \<Rightarrow>
                  (let h1 = SetLevel nn level (mem s);
                       maxId' = maxId s + 1;
                       h2 = SetLeft nn right h1;
                       h3 = SetRight nn (right + 1) h2;
                       h4 = fold (widen right) (nodes s) h3
                   in (Success, s\<lparr>mem := h4, nodes := nodes s @ [nn], maxId := maxId'\<rparr>))))"

subsection \<open>Delete\<close>

text \<open>
  One iteration of the loop of \<^verbatim>\<open>Delete\<close>. The bounds of the deleted node are
  read from the store at each use, as the Go code calls the getters of \<open>node\<close>
  inside the loop.
\<close>

definition close_gap :: "ref \<Rightarrow> ref \<Rightarrow> store \<times> ref list \<Rightarrow> store \<times> ref list" where
  "close_gap node n acc =
     (case acc of (h, newNodes) \<Rightarrow>
        if GetLeft h n < GetLeft h node \<or> GetRight h n > GetRight h node then
          (let h1 = (if GetRight h n > GetRight h node
                     then SetRight n (GetRight h n - (GetRight h node - GetLeft h node + 1)) h
                     else h);
               h2 = (if GetLeft h1 n > GetLeft h1 node
                     then SetLeft n (GetLeft h1 n - (GetRight h1 node - GetLeft h1 node + 1)) h1
                     else h1)
           in (h2, newNodes @ [n]))
        else (h, newNodes))"

definition Delete :: "NestedSet \<Rightarrow> ref option \<Rightarrow> outcome \<times> NestedSet" where
  "Delete s node =
     (case node of
        None \<Rightarrow> (Failure CantDeleteRoot, s)
      | Some nd \<Rightarrow>
          if nd = rootNode s then (Failure CantDeleteRoot, s)
          else if \<not> exists_node s nd then (Failure NodeNotFound, s)
          else (case fold (close_gap nd) (nodes s) (mem s, []) of
                  (h, newNodes) \<Rightarrow> (Success, s\<lparr>mem := h, nodes := newNodes\<rparr>)))"

subsection \<open>Parent and Branch\<close>

definition parent :: "NestedSet \<Rightarrow> ref \<Rightarrow> ref option" where
  "parent s node =
     find (\<lambda>n. GetLeft (mem s) n \<le> GetLeft (mem s) node
              \<and> GetRight (mem s) n \<ge> GetRight (mem s) node
              \<and> GetLevel (mem s) n = GetLevel (mem s) node - 1) (nodes s)"

text \<open>
  \<^verbatim>\<open>Parent\<close> calls the getters of its argument in the loop condition, so a nil
  argument faults as soon as the loop body runs once.
\<close>

definition Parent :: "NestedSet \<Rightarrow> ref option \<Rightarrow> ref option answer" where
  "Parent s node =
     (case node of
        None \<Rightarrow> (if nodes s = [] then Returns None else Faults)
      | Some nd \<Rightarrow> Returns (parent s nd))"

definition FindById :: "NestedSet \<Rightarrow> int \<Rightarrow> ref option" where
  "FindById s i = find (\<lambda>n. GetId (mem s) n = i) (nodes s)"

text \<open>
  \<^verbatim>\<open>branch\<close> first sorts the slice of the container in place by left bound
  (\<^verbatim>\<open>sort.Sort\<close> of the Go library, given here as the sort by key of the list
  library; the two agree whenever the left bounds are pairwise different), then
  collects the nodes lying inside the interval of \<open>node\<close>. A nil slice and an
  empty slice are both the empty list.
\<close>

definition branch :: "NestedSet \<Rightarrow> ref option \<Rightarrow> ref list \<times> NestedSet" where
  "branch s node =
     (let s1 = s\<lparr>nodes := sort_key (GetLeft (mem s)) (nodes s)\<rparr> in
      case node of
        None \<Rightarrow> (nodes s1, s1)
      | Some nd \<Rightarrow>
          if \<not> exists_node s1 nd then ([], s1)
          else (filter (\<lambda>n. GetLeft (mem s1) n \<ge> GetLeft (mem s1) nd
                           \<and> GetRight (mem s1) n \<le> GetRight (mem s1) nd) (nodes s1), s1))"

definition Branch :: "NestedSet \<Rightarrow> ref option \<Rightarrow> ref list \<times> NestedSet" where
  "Branch s node = branch s node"

subsection \<open>Move\<close>

text \<open>The bodies of the three loops of \<^verbatim>\<open>Move\<close>, each on one node \<open>n\<close>.\<close>

definition shift_up :: "int \<Rightarrow> int \<Rightarrow> int \<Rightarrow> ref \<Rightarrow> store \<Rightarrow> store" where
  "shift_up left rightNear skewTree n h =
     (let h1 = (if GetRight h n < left \<and> GetRight h n > rightNear
                then SetRight n (GetRight h n + skewTree) h else h)
      in if GetLeft h1 n < left \<and> GetLeft h1 n > rightNear
         then SetLeft n (GetLeft h1 n + skewTree) h1 else h1)"

definition shift_down :: "int \<Rightarrow> int \<Rightarrow> int \<Rightarrow> ref \<Rightarrow> store \<Rightarrow> store" where
  "shift_down right rightNear skewTree n h =
     (let h1 = (if GetRight h n > right \<and> GetRight h n \<le> rightNear
                then SetRight n (GetRight h n - skewTree) h else h)
      in if GetLeft h1 n > right \<and> GetLeft h1 n \<le> rightNear
         then SetLeft n (GetLeft h1 n - skewTree) h1 else h1)"

definition translate :: "int \<Rightarrow> int \<Rightarrow> ref \<Rightarrow> store \<Rightarrow> store" where
  "translate skewEdit skewLevel n h =
     (let h1 = SetLeft n (GetLeft h n + skewEdit) h;
          h2 = SetRight n (GetRight h1 n + skewEdit) h1
      in SetLevel n (GetLevel h2 n + skewLevel) h2)"

definition Move :: "NestedSet \<Rightarrow> ref option \<Rightarrow> ref option \<Rightarrow> outcome \<times> NestedSet" where
  "Move s node parent0 =
     (case node of
        None \<Rightarrow> (Fault, s)
      | Some nd \<Rightarrow>
          if GetLevel (mem s) nd = 0 then (Failure CantMoveRoot, s)
          else
            (let p = (case parent0 of None \<Rightarrow> rootNode s | Some q \<Rightarrow> q) in
             if GetLeft (mem s) p \<ge> GetLeft (mem s) nd \<and> GetRight (mem s) p \<le> GetRight (mem s) nd
             then (Failure MoveWithinItself, s)
             else
               (case parent s nd of
                  None \<Rightarrow> (Failure StructureBroken, s)
                | Some currentParent \<Rightarrow>
                    if currentParent = p then (Failure SameBranchNotImplemented, s)
                    else
                      (let level = GetLevel (mem s) nd;
                           left = GetLeft (mem s) nd;
                           right = GetRight (mem s) nd;
                           levelUp = GetLevel (mem s) p;
                           rightNear = GetRight (mem s) p - 1;
                           skewLevel = levelUp - level + 1;
                           skewTree = right - left + 1;
                           skewEdit = rightNear - left + 1;
                           isUp = (rightNear < right)
                       in case branch s (Some nd) of
                            (toUpdate, s1) \<Rightarrow>
                              (let h1 = (if isUp
                                         then fold (shift_up left rightNear skewTree) (nodes s1) (mem s1)
                                         else fold (shift_down right rightNear skewTree) (nodes s1) (mem s1));
                                   skewEdit' = (if isUp then skewEdit
                                                else rightNear - left + 1 - skewTree);
                                   h2 = fold (translate skewEdit' skewLevel) toUpdate h1
                               in (Success, s1\<lparr>mem := h2\<rparr>))))))"

section \<open>Auxiliary definitions\<close>

subsection \<open>What one loop iteration does to the node it visits\<close>

definition widen_node :: "int \<Rightarrow> Node \<Rightarrow> Node" where
  "widen_node right x =
     (if NodeRight x \<ge> right
      then (if NodeLeft x > right
            then x\<lparr>NodeRight := NodeRight x + 2, NodeLeft := NodeLeft x + 2\<rparr>
            else x\<lparr>NodeRight := NodeRight x + 2\<rparr>)
      else x)"

definition survives :: "int \<Rightarrow> int \<Rightarrow> Node \<Rightarrow> bool" where
  "survives nl nr x \<longleftrightarrow> NodeLeft x < nl \<or> NodeRight x > nr"

definition close_node :: "int \<Rightarrow> int \<Rightarrow> Node \<Rightarrow> Node" where
  "close_node nl nr x =
     x\<lparr>NodeRight := (if NodeRight x > nr then NodeRight x - (nr - nl + 1) else NodeRight x),
       NodeLeft := (if NodeLeft x > nl then NodeLeft x - (nr - nl + 1) else NodeLeft x)\<rparr>"

definition shift_up_node :: "int \<Rightarrow> int \<Rightarrow> int \<Rightarrow> Node \<Rightarrow> Node" where
  "shift_up_node left rightNear skewTree x =
     x\<lparr>NodeRight := (if NodeRight x < left \<and> NodeRight x > rightNear
                      then NodeRight x + skewTree else NodeRight x),
       NodeLeft := (if NodeLeft x < left \<and> NodeLeft x > rightNear
                     then NodeLeft x + skewTree else NodeLeft x)\<rparr>"

definition shift_down_node :: "int \<Rightarrow> int \<Rightarrow> int \<Rightarrow> Node \<Rightarrow> Node" where
  "shift_down_node right rightNear skewTree x =
     x\<lparr>NodeRight := (if NodeRight x > right \<and> NodeRight x \<le> rightNear
                      then NodeRight x - skewTree else NodeRight x),
       NodeLeft := (if NodeLeft x > right \<and> NodeLeft x \<le> rightNear
                     then NodeLeft x - skewTree else NodeLeft x)\<rparr>"

definition translate_node :: "int \<Rightarrow> int \<Rightarrow> Node \<Rightarrow> Node" where
  "translate_node skewEdit skewLevel x =
     x\<lparr>NodeLeft := NodeLeft x + skewEdit, NodeRight := NodeRight x + skewEdit,
       NodeLevel := NodeLevel x + skewLevel\<rparr>"

subsection \<open>The scenarios of the specification\<close>

text \<open>
  A store in which every node is the zero value of the Go struct, as a caller
  gets from \<^verbatim>\<open>&Node{}\<close>. In the scenarios the root R is at address 0, A at 1,
  B at 2 and C at 3.
\<close>

definition zero_node :: Node where
  "zero_node = \<lparr>NodeId = 0, NodeName = [], NodeLevel = 0, NodeLeft = 0, NodeRight = 0\<rparr>"

definition fresh_store :: store where
  "fresh_store = (\<lambda>_. zero_node)"

definition scn0 :: NestedSet where
  "scn0 = \<lparr>mem = SetRight 0 1 fresh_store, nodes = [0], rootNode = 0, maxId = 0\<rparr>"

definition scn1 :: NestedSet where
  "scn1 = snd (Add scn0 (Some 1) None)"

definition scn2 :: NestedSet where
  "scn2 = snd (Add scn1 (Some 2) None)"

definition scn3 :: NestedSet where
  "scn3 = snd (Add scn2 (Some 3) (Some 1))"

text \<open>
  A node that was held and deleted keeps the coordinates it had: X (address 9)
  is added first, then A and B, then X is deleted.
\<close>

definition stale1 :: NestedSet where
  "stale1 = snd (Add scn0 (Some 9) None)"

definition stale2 :: NestedSet where
  "stale2 = snd (Add stale1 (Some 1) None)"

definition stale3 :: NestedSet where
  "stale3 = snd (Add stale2 (Some 2) None)"

definition stale4 :: NestedSet where
  "stale4 = snd (Delete stale3 (Some 9))"

section \<open>Consistency of a collection\<close>

text \<open>
  The interval of \<open>a\<close> strictly contains the interval of \<open>b\<close>; the two intervals
  are disjoint; the two nodes have a bound in common.
\<close>

definition strictly_contains :: "store \<Rightarrow> ref \<Rightarrow> ref \<Rightarrow> bool" where
  "strictly_contains h a b \<longleftrightarrow> GetLeft h a < GetLeft h b \<and> GetRight h b < GetRight h a"

definition disjoint_intervals :: "store \<Rightarrow> ref \<Rightarrow> ref \<Rightarrow> bool" where
  "disjoint_intervals h a b \<longleftrightarrow> GetRight h a < GetLeft h b \<or> GetRight h b < GetLeft h a"

definition shares_endpoint :: "store \<Rightarrow> ref \<Rightarrow> ref \<Rightarrow> bool" where
  "shares_endpoint h a b \<longleftrightarrow>
     GetLeft h a = GetLeft h b \<or> GetLeft h a = GetRight h b
     \<or> GetRight h a = GetLeft h b \<or> GetRight h a = GetRight h b"

text \<open>
  The four invariants of the data model, over the nodes held by the container:
  left below right; any two nodes disjoint or strictly nested; the level of a
  node is the number of other nodes that strictly contain it; no bound shared
  by two nodes.
\<close>

definition tree_consistent :: "NestedSet \<Rightarrow> bool" where
  "tree_consistent s \<longleftrightarrow>
     (\<forall>a\<in>set (nodes s). GetLeft (mem s) a < GetRight (mem s) a)
   \<and> (\<forall>a\<in>set (nodes s). \<forall>b\<in>set (nodes s). a \<noteq> b \<longrightarrow>
          disjoint_intervals (mem s) a b
        \<or> strictly_contains (mem s) a b \<or> strictly_contains (mem s) b a)
   \<and> (\<forall>a\<in>set (nodes s).
          GetLevel (mem s) a =
            int (length (filter (\<lambda>b. b \<noteq> a \<and> strictly_contains (mem s) b a) (nodes s))))
   \<and> (\<forall>a\<in>set (nodes s). \<forall>b\<in>set (nodes s). a \<noteq> b \<longrightarrow> \<not> shares_endpoint (mem s) a b)"

text \<open>
  A consistent collection: each reference is held once, the root is held and
  its interval strictly contains every other, and the four invariants hold.
\<close>

definition consistent :: "NestedSet \<Rightarrow> bool" where
  "consistent s \<longleftrightarrow>
     distinct (nodes s)
   \<and> rootNode s \<in> set (nodes s)
   \<and> (\<forall>a\<in>set (nodes s). a \<noteq> rootNode s \<longrightarrow> strictly_contains (mem s) (rootNode s) a)
   \<and> tree_consistent s"

text \<open>The same invariants over a set of references, for the proofs.\<close>

definition laminar :: "store \<Rightarrow> ref set \<Rightarrow> bool" where
  "laminar h S \<longleftrightarrow>
     (\<forall>a\<in>S. GetLeft h a < GetRight h a)
   \<and> (\<forall>a\<in>S. \<forall>b\<in>S. a \<noteq> b \<longrightarrow>
          disjoint_intervals h a b \<or> strictly_contains h a b \<or> strictly_contains h b a)"

definition levelled :: "store \<Rightarrow> ref set \<Rightarrow> bool" where
  "levelled h S \<longleftrightarrow> (\<forall>a\<in>S. GetLevel h a = int (card {b\<in>S. strictly_contains h b a}))"

definition rooted :: "store \<Rightarrow> ref set \<Rightarrow> ref \<Rightarrow> bool" where
  "rooted h S r \<longleftrightarrow> r \<in> S \<and> (\<forall>a\<in>S. a \<noteq> r \<longrightarrow> strictly_contains h r a)"

section \<open>Sequences of operations\<close>

text \<open>
  A call of a mutating method, with the arguments the sequences of C1 allow:
  \<^verbatim>\<open>Add\<close> of a node that is not held, \<^verbatim>\<open>Delete\<close> of a held node, \<^verbatim>\<open>Move\<close> of a
  held node under a held parent or under nil. \<open>apply_operation\<close> gives the state
  after the call when the arguments are of this kind and the method returns
  nil, and nothing otherwise.
\<close>

datatype operation = OpAdd ref "ref option" | OpDelete ref | OpMove ref "ref option"

definition held :: "NestedSet \<Rightarrow> ref option \<Rightarrow> bool" where
  "held s q = (case q of None \<Rightarrow> True | Some n \<Rightarrow> n \<in> set (nodes s))"

fun apply_operation :: "NestedSet \<Rightarrow> operation \<Rightarrow> NestedSet option" where
  "apply_operation s (OpAdd n p) =
     (if n \<in> set (nodes s) then None
      else if fst (Add s (Some n) p) = Success then Some (snd (Add s (Some n) p)) else None)"
| "apply_operation s (OpDelete n) =
     (if n \<notin> set (nodes s) then None
      else if fst (Delete s (Some n)) = Success then Some (snd (Delete s (Some n))) else None)"
| "apply_operation s (OpMove n p) =
     (if n \<notin> set (nodes s) \<or> \<not> held s p then None
      else if fst (Move s (Some n) p) = Success then Some (snd (Move s (Some n) p)) else None)"

fun run :: "NestedSet \<Rightarrow> operation list \<Rightarrow> NestedSet option" where
  "run s [] = Some s"
| "run s (x # xs) = (case apply_operation s x of None \<Rightarrow> None | Some s' \<Rightarrow> run s' xs)"

text \<open>
  Adds A, B under the root and C under A, moves C under B, deletes A.
\<close>

definition example_operations :: "operation list" where
  "example_operations =
     [OpAdd 1 None, OpAdd 2 None, OpAdd 3 (Some 1), OpMove 3 (Some 2), OpDelete 1]"

text \<open>
  A added, B added, A deleted: A (address 1) is no longer held and keeps the
  coordinates it had when it was deleted.
\<close>

definition after_delete :: NestedSet where
  "after_delete = snd (Delete scn2 (Some 1))"

text \<open>
  A under the root, N (address 2) and S (address 3) under A, B (address 4)
  under the root; then N moved under B, and moved back under A.
\<close>

definition siblings :: NestedSet where
  "siblings =
     snd (Add (snd (Add (snd (Add scn1 (Some 2) (Some 1))) (Some 3) (Some 1))) (Some 4) None)"

definition moved_out :: NestedSet where
  "moved_out = snd (Move siblings (Some 2) (Some 4))"

definition moved_back :: NestedSet where
  "moved_back = snd (Move moved_out (Some 2) (Some 1))"

text \<open>
  The root of a consistent collection starts at 0 and ends at or before \<open>k\<close>.
\<close>

definition root_within :: "NestedSet \<Rightarrow> int \<Rightarrow> bool" where
  "root_within s k \<longleftrightarrow>
     consistent s \<and> GetLeft (mem s) (rootNode s) = 0 \<and> GetRight (mem s) (rootNode s) \<le> k"

section \<open>The range of int64\<close>

text \<open>
  The fields of a node are \<^verbatim>\<open>int64\<close> in the Go code. Where a statement speaks
  about a collection with arbitrary stored values, it asks that the sums the
  method computes stay in this range, so that the value the Go code stores is
  the value the model stores.
\<close>

definition int64_min :: int where
  "int64_min = - (2 ^ 63)"

definition int64_max :: int where
  "int64_max = 2 ^ 63 - 1"

definition is_int64 :: "int \<Rightarrow> bool" where
  "is_int64 v \<longleftrightarrow> int64_min \<le> v \<and> v \<le> int64_max"

text \<open>
  The sums computed by \<^verbatim>\<open>Add\<close> under the parent \<open>p\<close>: the level of the parent
  plus one, the insertion point plus one, and bound plus 2 for every bound the
  widening loop raises.
\<close>

definition Add_in_int64 :: "NestedSet \<Rightarrow> ref \<Rightarrow> bool" where
  "Add_in_int64 s p \<longleftrightarrow>
     is_int64 (GetLevel (mem s) p + 1)
   \<and> is_int64 (GetRight (mem s) p + 1)
   \<and> (\<forall>n\<in>set (nodes s).
         GetRight (mem s) n \<ge> GetRight (mem s) p \<longrightarrow>
           is_int64 (GetRight (mem s) n + 2)
         \<and> (GetLeft (mem s) n > GetRight (mem s) p \<longrightarrow> is_int64 (GetLeft (mem s) n + 2)))"

text \<open>
  A held twice: A is added under the root a second time; then B (address 2) is
  added under the root.
\<close>

definition held_twice :: NestedSet where
  "held_twice = snd (Add scn1 (Some 1) None)"

definition held_twice_b :: NestedSet where
  "held_twice_b = snd (Add held_twice (Some 2) None)"

section \<open>Basic facts about the loops\<close>

lemmas getters = GetLevel_def GetLeft_def GetRight_def GetId_def

lemmas setters = SetLevel_def SetLeft_def SetRight_def

lemmas eval_defs = Add_def Delete_def Move_def parent_def branch_def exists_node_def
  widen_def close_gap_def shift_up_def shift_down_def translate_def getters setters
  fresh_store_def zero_node_def Let_def

lemma exists_in_iff: "exists_in xs n \<longleftrightarrow> n \<in> set xs"
  by (induction xs) auto

lemma exists_node_iff: "exists_node s n \<longleftrightarrow> n \<in> set (nodes s)"
  by (simp add: exists_node_def exists_in_iff)

lemma new_scn0: "NewNestedSet fresh_store (Some 0) = Returns scn0"
  by (simp add: NewNestedSet_def scn0_def)

text \<open>
  A loop that rewrites only the node it visits, from that node's own fields,
  acts on each node of a duplicate-free slice independently.
\<close>

lemma fold_pointwise:
  assumes "\<And>n h. step n h = h(n := g (h n))" and "distinct xs"
  shows "fold step xs h = (\<lambda>m. if m \<in> set xs then g (h m) else h m)"
  using assms(2)
proof (induction xs arbitrary: h)
  case Nil
  then show ?case by simp
next
  case (Cons x xs)
  then show ?case by (auto simp: assms(1) fun_eq_iff)
qed

lemma widen_eq: "widen right n h = h(n := widen_node right (h n))"
  by (auto simp: widen_def widen_node_def getters setters Let_def fun_eq_iff)

lemma fold_widen:
  "distinct xs \<Longrightarrow>
   fold (widen right) xs h = (\<lambda>m. if m \<in> set xs then widen_node right (h m) else h m)"
  by (rule fold_pointwise) (rule widen_eq)

lemma close_gap_step:
  assumes "nl = GetLeft h node" "nr = GetRight h node"
  shows "close_gap node n (h, acc) =
     (if survives nl nr (h n) then (h(n := close_node nl nr (h n)), acc @ [n]) else (h, acc))"
  using assms
  by (auto simp: close_gap_def survives_def close_node_def getters setters Let_def fun_eq_iff)

text \<open>
  The deleted node is not a survivor, so the loop of \<^verbatim>\<open>Delete\<close> never writes
  it and reads the same bounds from it in every iteration.
\<close>

lemma fold_close_gap:
  assumes "distinct xs" "nl = GetLeft h node" "nr = GetRight h node"
  shows "fold (close_gap node) xs (h, acc) =
     ((\<lambda>m. if m \<in> set xs \<and> survives nl nr (h m) then close_node nl nr (h m) else h m),
      acc @ filter (\<lambda>m. survives nl nr (h m)) xs)"
  using assms
proof (induction xs arbitrary: h acc)
  case Nil
  then show ?case by simp
next
  case (Cons x xs)
  let ?h1 = "if survives nl nr (h x) then h(x := close_node nl nr (h x)) else h"
  have keep: "GetLeft ?h1 node = nl" "GetRight ?h1 node = nr"
    using Cons.prems by (auto simp: survives_def getters)
  have step: "close_gap node x (h, acc) =
      (?h1, if survives nl nr (h x) then acc @ [x] else acc)"
    using Cons.prems by (simp add: close_gap_step)
  have "fold (close_gap node) xs (?h1, if survives nl nr (h x) then acc @ [x] else acc) =
     ((\<lambda>m. if m \<in> set xs \<and> survives nl nr (?h1 m) then close_node nl nr (?h1 m) else ?h1 m),
      (if survives nl nr (h x) then acc @ [x] else acc) @ filter (\<lambda>m. survives nl nr (?h1 m)) xs)"
    using Cons.prems keep by (intro Cons.IH) auto
  moreover have "filter (\<lambda>m. survives nl nr (?h1 m)) xs = filter (\<lambda>m. survives nl nr (h m)) xs"
    using Cons.prems(1) by (intro filter_cong) auto
  moreover have "(\<lambda>m. if m \<in> set xs \<and> survives nl nr (?h1 m) then close_node nl nr (?h1 m) else ?h1 m)
     = (\<lambda>m. if m \<in> set (x # xs) \<and> survives nl nr (h m) then close_node nl nr (h m) else h m)"
    using Cons.prems(1) by (auto simp: fun_eq_iff)
  ultimately show ?case
    by (simp add: step)
qed

section \<open>Add\<close>

lemma Add_store:
  assumes "distinct (nodes s)"
    and "case parent0 of None \<Rightarrow> True | Some q \<Rightarrow> q \<in> set (nodes s)"
    and "p = (case parent0 of None \<Rightarrow> rootNode s | Some q \<Rightarrow> q)"
    and "ip = GetRight (mem s) p"
    and "h3 = SetRight nn (ip + 1) (SetLeft nn ip (SetLevel nn (GetLevel (mem s) p + 1) (mem s)))"
  shows "Add s (Some nn) parent0 =
     (Success, s\<lparr>mem := (\<lambda>m. if m \<in> set (nodes s) then widen_node ip (h3 m) else h3 m),
                 nodes := nodes s @ [nn], maxId := maxId s + 1\<rparr>)"
proof -
  have pm: "(case parent0 of Some q \<Rightarrow> if \<not> exists_node s q then None else Some q
                           | None \<Rightarrow> Some (rootNode s)) = Some p"
    using assms(2,3) by (cases parent0) (simp_all add: exists_node_iff)
  show ?thesis
    unfolding Add_def pm assms(5)
    by (simp add: Let_def assms(4)[symmetric] fold_widen[OF assms(1)])
qed

text \<open>
  C2, as the code has it. Take a collection that holds each reference once, a
  node that is not yet held, and a parent that is held (the root when the parent
  argument is nil), such that the sums \<^verbatim>\<open>Add\<close> computes stay in the range of
  \<^verbatim>\<open>int64\<close>. Then \<^verbatim>\<open>Add\<close> succeeds and appends the node; the new node gets the
  parent's level plus one, its left bound is the parent's right bound before the
  call and its right bound is that value plus one; every node held before has
  its right bound raised by 2 exactly when it was at or beyond the insertion
  point, and its left bound raised by 2 exactly when moreover the left bound was
  beyond the insertion point; levels of the nodes held before are kept, and
  every value written is in the range of \<^verbatim>\<open>int64\<close>. The three insertions of the
  specification (A and B under the root, then C under A) end with C at left 2,
  right 3, level 2, A with right 4 and R with right 7.
\<close>

theorem Add_sets_coordinates:
  assumes "distinct (nodes s)" and "nn \<notin> set (nodes s)"
    and "case parent0 of None \<Rightarrow> True | Some q \<Rightarrow> q \<in> set (nodes s)"
    and "p = (case parent0 of None \<Rightarrow> rootNode s | Some q \<Rightarrow> q)"
    and "ip = GetRight (mem s) p"
    and "Add_in_int64 s p"
    and "s' = snd (Add s (Some nn) parent0)"
  shows "fst (Add s (Some nn) parent0) = Success
    \<and> nodes s' = nodes s @ [nn]
    \<and> GetLevel (mem s') nn = GetLevel (mem s) p + 1
    \<and> GetLeft (mem s') nn = ip
    \<and> GetRight (mem s') nn = ip + 1
    \<and> is_int64 (GetLevel (mem s') nn) \<and> is_int64 (GetRight (mem s') nn)
    \<and> (\<forall>n\<in>set (nodes s).
          GetRight (mem s') n =
            (if GetRight (mem s) n \<ge> ip then GetRight (mem s) n + 2 else GetRight (mem s) n)
        \<and> GetLeft (mem s') n =
            (if GetRight (mem s) n \<ge> ip \<and> GetLeft (mem s) n > ip
             then GetLeft (mem s) n + 2 else GetLeft (mem s) n)
        \<and> GetLevel (mem s') n = GetLevel (mem s) n
        \<and> (GetRight (mem s') n \<noteq> GetRight (mem s) n \<longrightarrow> is_int64 (GetRight (mem s') n))
        \<and> (GetLeft (mem s') n \<noteq> GetLeft (mem s) n \<longrightarrow> is_int64 (GetLeft (mem s') n)))
    \<and> (nodes scn3 = [0, 1, 2, 3]
        \<and> GetLeft (mem scn3) 3 = 2 \<and> GetRight (mem scn3) 3 = 3 \<and> GetLevel (mem scn3) 3 = 2
        \<and> GetRight (mem scn3) 1 = 4 \<and> GetRight (mem scn3) 0 = 7)"
proof -
  have "nodes scn3 = [0, 1, 2, 3]
        \<and> GetLeft (mem scn3) 3 = 2 \<and> GetRight (mem scn3) 3 = 3 \<and> GetLevel (mem scn3) 3 = 2
        \<and> GetRight (mem scn3) 1 = 4 \<and> GetRight (mem scn3) 0 = 7"
    by (simp add: scn3_def scn2_def scn1_def scn0_def eval_defs)
  then show ?thesis
    using assms(2) assms(6)[unfolded Add_in_int64_def assms(5)[symmetric]]
    unfolding assms(7) Add_store[OF assms(1,3,4,5) refl]
    by (auto simp: getters setters widen_node_def)
qed

theorem Add_sets_coordinates_witness:
  "distinct (nodes scn2) \<and> 3 \<notin> set (nodes scn2) \<and> 1 \<in> set (nodes scn2)
   \<and> Add_in_int64 scn2 1
   \<and> fst (Add scn2 (Some 3) (Some 1)) = Success
   \<and> GetLeft (mem scn3) 3 = GetRight (mem scn2) 1
   \<and> GetRight (mem scn3) 3 = GetRight (mem scn2) 1 + 1
   \<and> GetRight (mem scn3) 0 = GetRight (mem scn2) 0 + 2
   \<and> GetLeft (mem scn3) 2 = GetLeft (mem scn2) 2 + 2"
proof -
  have n: "nodes scn2 = [0, 1, 2]"
    by (simp add: scn2_def scn1_def scn0_def eval_defs)
  have v: "GetRight (mem scn2) 1 = 2" "GetRight (mem scn2) 0 = 5" "GetLeft (mem scn2) 2 = 3"
     "GetRight (mem scn2) 2 = 4"
    by (simp_all add: scn2_def scn1_def scn0_def eval_defs)
  have d: "distinct (nodes scn2)" and f: "3 \<notin> set (nodes scn2)"
    and m: "case Some 1 of None \<Rightarrow> True | Some q \<Rightarrow> q \<in> set (nodes scn2)"
    by (simp_all add: n)
  have r: "Add_in_int64 scn2 1" by code_simp
  show ?thesis
    using Add_sets_coordinates[OF d f m _ refl _ refl, of 1] n v r
    by (simp add: scn3_def)
qed

text \<open>
  C2, as stated for every collection, fails where a reference occurs twice.
  \<^verbatim>\<open>Add(A, nil)\<close> on a collection that holds A, with the root ending at 3, gives
  A the right bound 4 and the widening pass then visits A and raises it to 6.
  On the slice R, A, A that results, \<^verbatim>\<open>Add(B, nil)\<close> visits A twice and raises
  its right bound from 6 to 10, by 4.
\<close>

theorem Add_sets_coordinates_counterexample:
  "nodes scn1 = [0, 1] \<and> rootNode scn1 = 0 \<and> GetRight (mem scn1) 0 = 3
   \<and> fst (Add scn1 (Some 1) None) = Success
   \<and> GetRight (mem held_twice) 1 = 6
   \<and> GetRight (mem held_twice) 1 \<noteq> GetRight (mem scn1) 0 + 1
   \<and> nodes held_twice = [0, 1, 1] \<and> GetRight (mem held_twice) 0 = 5
   \<and> fst (Add held_twice (Some 2) None) = Success
   \<and> GetRight (mem held_twice_b) 1 = 10
   \<and> GetRight (mem held_twice_b) 1 \<noteq> GetRight (mem held_twice) 1 + 2"
  by (simp add: held_twice_b_def held_twice_def scn1_def scn0_def eval_defs)

section \<open>Delete\<close>

lemma Delete_store:
  assumes "distinct (nodes s)" "nd \<in> set (nodes s)" "nd \<noteq> rootNode s"
    and "nl = GetLeft (mem s) nd" "nr = GetRight (mem s) nd"
  shows "Delete s (Some nd) =
     (Success, s\<lparr>mem := (\<lambda>m. if m \<in> set (nodes s) \<and> survives nl nr (mem s m)
                               then close_node nl nr (mem s m) else mem s m),
                 nodes := filter (\<lambda>m. survives nl nr (mem s m)) (nodes s)\<rparr>)"
  using assms(2,3)
  by (simp add: Delete_def exists_node_iff fold_close_gap[OF assms(1,4,5)])

text \<open>
  C3, as the code has it. In a collection that holds each reference once, deleting a held node other
  than the root succeeds; the nodes dropped are exactly those whose interval lies
  inside the interval of the deleted node (the node itself among them); every
  surviving node has its right bound lowered by the removal width
  (right - left + 1 of the deleted node) exactly when it was beyond the deleted
  node's right bound, and its left bound lowered by the same width exactly when
  it was beyond the deleted node's left bound; levels are kept, and the dropped
  nodes are not written. In the scenario of the specification, deleting A (with
  child C) leaves R and B, and lowers both bounds of B and the right bound of R
  by 4.
\<close>

theorem Delete_closes_gap:
  assumes "distinct (nodes s)" and "nd \<in> set (nodes s)" and "nd \<noteq> rootNode s"
    and "nl = GetLeft (mem s) nd" and "nr = GetRight (mem s) nd"
    and "w = nr - nl + 1"
    and "s' = snd (Delete s (Some nd))"
  shows "fst (Delete s (Some nd)) = Success
    \<and> nodes s' = filter (\<lambda>n. \<not> (nl \<le> GetLeft (mem s) n \<and> GetRight (mem s) n \<le> nr)) (nodes s)
    \<and> (\<forall>n\<in>set (nodes s').
          GetRight (mem s') n =
            (if GetRight (mem s) n > nr then GetRight (mem s) n - w else GetRight (mem s) n)
        \<and> GetLeft (mem s') n =
            (if GetLeft (mem s) n > nl then GetLeft (mem s) n - w else GetLeft (mem s) n)
        \<and> GetLevel (mem s') n = GetLevel (mem s) n)
    \<and> (\<forall>n. n \<notin> set (nodes s') \<longrightarrow> mem s' n = mem s n)
    \<and> (nodes scn3 = [0, 1, 2, 3] \<and> nodes (snd (Delete scn3 (Some 1))) = [0, 2]
        \<and> GetLeft (mem (snd (Delete scn3 (Some 1)))) 2 = GetLeft (mem scn3) 2 - 4
        \<and> GetRight (mem (snd (Delete scn3 (Some 1)))) 2 = GetRight (mem scn3) 2 - 4
        \<and> GetRight (mem (snd (Delete scn3 (Some 1)))) 0 = GetRight (mem scn3) 0 - 4)"
proof -
  have sv: "survives nl nr (mem s n) \<longleftrightarrow> \<not> (nl \<le> GetLeft (mem s) n \<and> GetRight (mem s) n \<le> nr)"
    for n by (auto simp: survives_def getters)
  have c: "nodes scn3 = [0, 1, 2, 3] \<and> nodes (snd (Delete scn3 (Some 1))) = [0, 2]
        \<and> GetLeft (mem (snd (Delete scn3 (Some 1)))) 2 = GetLeft (mem scn3) 2 - 4
        \<and> GetRight (mem (snd (Delete scn3 (Some 1)))) 2 = GetRight (mem scn3) 2 - 4
        \<and> GetRight (mem (snd (Delete scn3 (Some 1)))) 0 = GetRight (mem scn3) 0 - 4"
    by (simp add: scn3_def scn2_def scn1_def scn0_def eval_defs)
  have f: "filter (\<lambda>m. survives nl nr (mem s m)) (nodes s)
      = filter (\<lambda>n. \<not> (nl \<le> GetLeft (mem s) n \<and> GetRight (mem s) n \<le> nr)) (nodes s)"
    by (rule filter_cong) (auto simp: survives_def getters)
  have 1: "fst (Delete s (Some nd)) = Success"
    by (simp add: Delete_store[OF assms(1,2,3,4,5)])
  have 2: "nodes s' = filter (\<lambda>n. \<not> (nl \<le> GetLeft (mem s) n \<and> GetRight (mem s) n \<le> nr)) (nodes s)"
    by (simp add: assms(7) Delete_store[OF assms(1,2,3,4,5)] f)
  have 3: "mem s' = (\<lambda>m. if m \<in> set (nodes s) \<and> survives nl nr (mem s m)
                               then close_node nl nr (mem s m) else mem s m)"
    by (simp add: assms(7) Delete_store[OF assms(1,2,3,4,5)])
  have 4: "\<forall>n\<in>set (nodes s').
          GetRight (mem s') n =
            (if GetRight (mem s) n > nr then GetRight (mem s) n - w else GetRight (mem s) n)
        \<and> GetLeft (mem s') n =
            (if GetLeft (mem s) n > nl then GetLeft (mem s) n - w else GetLeft (mem s) n)
        \<and> GetLevel (mem s') n = GetLevel (mem s) n"
    unfolding 2 3 by (auto simp: assms(6) getters close_node_def survives_def)
  have 5: "\<forall>n. n \<notin> set (nodes s') \<longrightarrow> mem s' n = mem s n"
    unfolding 2 3 by (auto simp: getters survives_def)
  show ?thesis
    using 1 2 4 5 c by blast
qed

theorem Delete_closes_gap_witness:
  "distinct (nodes scn3) \<and> 1 \<in> set (nodes scn3) \<and> 1 \<noteq> rootNode scn3
   \<and> fst (Delete scn3 (Some 1)) = Success
   \<and> nodes (snd (Delete scn3 (Some 1))) = [0, 2]
   \<and> GetLeft (mem (snd (Delete scn3 (Some 1)))) 2 = 1
   \<and> GetRight (mem (snd (Delete scn3 (Some 1)))) 2 = 2
   \<and> GetRight (mem (snd (Delete scn3 (Some 1)))) 0 = 3"
proof -
  have n: "nodes scn3 = [0, 1, 2, 3]" "rootNode scn3 = 0"
    by (simp_all add: scn3_def scn2_def scn1_def scn0_def eval_defs)
  have v: "GetLeft (mem scn3) 0 = 0" "GetRight (mem scn3) 0 = 7"
      "GetLeft (mem scn3) 1 = 1" "GetRight (mem scn3) 1 = 4"
      "GetLeft (mem scn3) 2 = 5" "GetRight (mem scn3) 2 = 6"
      "GetLeft (mem scn3) 3 = 2" "GetRight (mem scn3) 3 = 3"
    by (simp_all add: scn3_def scn2_def scn1_def scn0_def eval_defs)
  have d: "distinct (nodes scn3)" and m: "1 \<in> set (nodes scn3)" and r: "1 \<noteq> rootNode scn3"
    by (simp_all add: n)
  show ?thesis
    using Delete_closes_gap[OF d m r refl refl refl refl] n v
    by simp
qed

text \<open>
  C3, as stated for every collection, fails where a reference occurs twice: on
  the slice R, A, A, B, with B at 5..6 and A ending at 10, \<^verbatim>\<open>Delete(B)\<close> visits
  A twice and lowers its right bound to 6, by twice the removal width 2.
\<close>

theorem Delete_closes_gap_counterexample:
  "nodes held_twice_b = [0, 1, 1, 2] \<and> rootNode held_twice_b = 0
   \<and> GetLeft (mem held_twice_b) 2 = 5 \<and> GetRight (mem held_twice_b) 2 = 6
   \<and> GetRight (mem held_twice_b) 1 = 10
   \<and> fst (Delete held_twice_b (Some 2)) = Success
   \<and> nodes (snd (Delete held_twice_b (Some 2))) = [0, 1, 1]
   \<and> GetRight (mem (snd (Delete held_twice_b (Some 2)))) 1 = 6
   \<and> GetRight (mem (snd (Delete held_twice_b (Some 2)))) 1
       \<noteq> GetRight (mem held_twice_b) 1 - (6 - 5 + 1)"
  by (simp add: held_twice_b_def held_twice_def scn1_def scn0_def eval_defs)

section \<open>Failures, faults and missing membership checks\<close>

text \<open>
  C8. Whenever \<^verbatim>\<open>Add\<close>, \<^verbatim>\<open>Delete\<close> or \<^verbatim>\<open>Move\<close> returns an error, the
  container and the store are exactly what they were before the call: the slice,
  the counter and every field of every node.
\<close>

theorem failure_keeps_state:
  "(\<forall>e. fst (Add s newNode parent0) = Failure e \<longrightarrow> snd (Add s newNode parent0) = s)
   \<and> (\<forall>e. fst (Delete s node) = Failure e \<longrightarrow> snd (Delete s node) = s)
   \<and> (\<forall>e. fst (Move s node parent0) = Failure e \<longrightarrow> snd (Move s node parent0) = s)"
proof (intro conjI allI impI)
  fix e assume "fst (Add s newNode parent0) = Failure e"
  then show "snd (Add s newNode parent0) = s"
    by (auto simp: Add_def Let_def split: option.splits if_splits)
next
  fix e assume "fst (Delete s node) = Failure e"
  then show "snd (Delete s node) = s"
    by (auto simp: Delete_def split: option.splits if_splits prod.splits)
next
  fix e assume "fst (Move s node parent0) = Failure e"
  then show "snd (Move s node parent0) = s"
    by (auto simp: Move_def Let_def split: option.splits if_splits prod.splits)
qed

theorem failure_keeps_state_witness:
  "fst (Add scn1 (Some 2) (Some 5)) = Failure ParentNotFound
   \<and> snd (Add scn1 (Some 2) (Some 5)) = scn1
   \<and> fst (Delete scn1 (Some 0)) = Failure CantDeleteRoot
   \<and> snd (Delete scn1 (Some 0)) = scn1
   \<and> fst (Move scn1 (Some 1) None) = Failure SameBranchNotImplemented
   \<and> snd (Move scn1 (Some 1) None) = scn1"
proof -
  have a: "fst (Add scn1 (Some 2) (Some 5)) = Failure ParentNotFound"
    by (simp add: scn1_def scn0_def eval_defs)
  have d: "fst (Delete scn1 (Some 0)) = Failure CantDeleteRoot"
    by (simp add: scn1_def scn0_def eval_defs)
  have m: "fst (Move scn1 (Some 1) None) = Failure SameBranchNotImplemented"
    by (simp add: scn1_def scn0_def eval_defs)
  show ?thesis
    using failure_keeps_state[of scn1 "Some 2" "Some 5" "Some 0"]
      failure_keeps_state[of scn1 "Some 2" "None" "Some 1"] a d m
    by simp
qed

text \<open>
  C9. \<^verbatim>\<open>Move\<close> reads the level of its node argument before any check, so a nil
  node makes it fault, where \<^verbatim>\<open>Delete\<close> answers a nil node with an error.
\<close>

theorem Move_nil_faults:
  "Move s None parent0 = (Fault, s) \<and> Delete s None = (Failure CantDeleteRoot, s)"
  by (simp add: Move_def Delete_def)

lemma count_list_distinct: "distinct xs \<Longrightarrow> x \<in> set xs \<Longrightarrow> count_list xs x = 1"
  by (induction xs) (auto simp: count_notin)

text \<open>
  C10. \<^verbatim>\<open>Add\<close> does not check whether the node it is given is already held:
  for a held node it succeeds, appends the reference a second time, and the
  widening pass then moves the right bound the node was just given (insertion
  point plus one) further by 2.
\<close>

theorem Add_of_held_node:
  assumes "distinct (nodes s)" and "nn \<in> set (nodes s)"
    and "case parent0 of None \<Rightarrow> True | Some q \<Rightarrow> q \<in> set (nodes s)"
    and "p = (case parent0 of None \<Rightarrow> rootNode s | Some q \<Rightarrow> q)"
    and "ip = GetRight (mem s) p"
    and "s' = snd (Add s (Some nn) parent0)"
  shows "fst (Add s (Some nn) parent0) = Success
    \<and> nodes s' = nodes s @ [nn]
    \<and> count_list (nodes s') nn = 2
    \<and> GetLeft (mem s') nn = ip
    \<and> GetRight (mem s') nn = ip + 1 + 2"
proof -
  have "count_list (nodes s) nn = 1"
    using assms(1,2) by (simp add: count_list_distinct)
  then show ?thesis
    using assms(2)
    unfolding assms(6) Add_store[OF assms(1,3,4,5) refl]
    by (simp add: getters setters widen_node_def)
qed

theorem Add_of_held_node_witness:
  "distinct (nodes scn1) \<and> 1 \<in> set (nodes scn1)
   \<and> fst (Add scn1 (Some 1) None) = Success
   \<and> nodes (snd (Add scn1 (Some 1) None)) = [0, 1, 1]
   \<and> GetLeft (mem scn1) 1 = 1 \<and> GetRight (mem scn1) 1 = 2
   \<and> GetLeft (mem (snd (Add scn1 (Some 1) None))) 1 = 3
   \<and> GetRight (mem (snd (Add scn1 (Some 1) None))) 1 = 6"
proof -
  have n: "nodes scn1 = [0, 1]" "rootNode scn1 = 0"
    by (simp_all add: scn1_def scn0_def eval_defs)
  have v: "GetLeft (mem scn1) 1 = 1" "GetRight (mem scn1) 1 = 2" "GetRight (mem scn1) 0 = 3"
    by (simp_all add: scn1_def scn0_def eval_defs)
  have d: "distinct (nodes scn1)" and m: "1 \<in> set (nodes scn1)"
    and q: "case None of None \<Rightarrow> True | Some q \<Rightarrow> q \<in> set (nodes scn1)"
    by (simp_all add: n)
  show ?thesis
    using Add_of_held_node[OF d m q refl refl refl] n v
    by simp
qed

text \<open>
  C4. \<^verbatim>\<open>Move\<close> has no membership check on its node. With the stale node X,
  which is not held but still carries the coordinates it had, \<^verbatim>\<open>Move(X, B)\<close>
  returns success and lowers the left bound of B from 3 to 1, the left bound
  of A.
\<close>

theorem Move_of_absent_node_succeeds:
  "nodes stale4 = [0, 1, 2] \<and> 9 \<notin> set (nodes stale4)
   \<and> GetLeft (mem stale4) 2 = 3 \<and> GetRight (mem stale4) 2 = 4
   \<and> GetLeft (mem stale4) 1 = 1 \<and> GetRight (mem stale4) 1 = 2
   \<and> fst (Move stale4 (Some 9) (Some 2)) = Success
   \<and> GetLeft (mem (snd (Move stale4 (Some 9) (Some 2)))) 2 = 1
   \<and> GetRight (mem (snd (Move stale4 (Some 9) (Some 2)))) 2 = 4"
  by (simp add: stale4_def stale3_def stale2_def stale1_def scn0_def eval_defs)

section \<open>Order-preserving renumbering\<close>

lemma sc_irrefl: "\<not> strictly_contains h a a"
  by (simp add: strictly_contains_def)

lemma consistent_iff:
  "consistent s \<longleftrightarrow>
     distinct (nodes s) \<and> rooted (mem s) (set (nodes s)) (rootNode s)
   \<and> laminar (mem s) (set (nodes s)) \<and> levelled (mem s) (set (nodes s))"
proof -
  have cnt: "length (filter (\<lambda>b. b \<noteq> a \<and> strictly_contains (mem s) b a) (nodes s))
      = card {b \<in> set (nodes s). strictly_contains (mem s) b a}" if "distinct (nodes s)" for a
  proof -
    have "{x. x \<noteq> a \<and> strictly_contains (mem s) x a} \<inter> set (nodes s)
        = {b \<in> set (nodes s). strictly_contains (mem s) b a}"
      by (auto simp: sc_irrefl)
    then show ?thesis
      using distinct_length_filter[OF that, of "\<lambda>b. b \<noteq> a \<and> strictly_contains (mem s) b a"]
      by simp
  qed
  have sh: "\<not> shares_endpoint h a b"
    if "GetLeft h a < GetRight h a" "GetLeft h b < GetRight h b"
      "disjoint_intervals h a b \<or> strictly_contains h a b \<or> strictly_contains h b a" for h a b
    using that by (auto simp: shares_endpoint_def disjoint_intervals_def strictly_contains_def)
  show ?thesis
  proof (cases "distinct (nodes s)")
    case False
    then show ?thesis by (simp add: consistent_def)
  next
    case True
    have "tree_consistent s \<longleftrightarrow> laminar (mem s) (set (nodes s)) \<and> levelled (mem s) (set (nodes s))"
      unfolding tree_consistent_def laminar_def levelled_def cnt[OF True]
      using sh by blast
    then show ?thesis
      using True by (auto simp: consistent_def rooted_def)
  qed
qed

lemma laminar_left_right: "laminar h S \<Longrightarrow> a \<in> S \<Longrightarrow> GetLeft h a < GetRight h a"
  by (simp add: laminar_def)

lemma laminar_pair:
  "laminar h S \<Longrightarrow> a \<in> S \<Longrightarrow> b \<in> S \<Longrightarrow> a \<noteq> b \<Longrightarrow>
   disjoint_intervals h a b \<or> strictly_contains h a b \<or> strictly_contains h b a"
  by (simp add: laminar_def)

lemma laminar_subset: "laminar h S \<Longrightarrow> S' \<subseteq> S \<Longrightarrow> laminar h S'"
  by (auto simp: laminar_def)

text \<open>Two different nodes of a laminar family have no bound in common.\<close>

lemma laminar_bounds_differ:
  assumes "laminar h S" "a \<in> S" "b \<in> S" "a \<noteq> b"
  shows "GetLeft h a \<noteq> GetLeft h b" "GetLeft h a \<noteq> GetRight h b"
    "GetRight h a \<noteq> GetLeft h b" "GetRight h a \<noteq> GetRight h b"
  using laminar_pair[OF assms] laminar_left_right[OF assms(1,2)] laminar_left_right[OF assms(1,3)]
  by (auto simp: disjoint_intervals_def strictly_contains_def)

text \<open>
  Moving all bounds of a family by a map that keeps their order keeps every
  relation between the intervals.
\<close>

lemma order_map_relations:
  assumes f: "\<And>x y. x \<in> E \<Longrightarrow> y \<in> E \<Longrightarrow> x < y \<Longrightarrow> f x < f y"
    and a: "GetLeft h a \<in> E" "GetRight h a \<in> E" "GetLeft h' a = f (GetLeft h a)"
      "GetRight h' a = f (GetRight h a)"
    and b: "GetLeft h b \<in> E" "GetRight h b \<in> E" "GetLeft h' b = f (GetLeft h b)"
      "GetRight h' b = f (GetRight h b)"
  shows "strictly_contains h' a b \<longleftrightarrow> strictly_contains h a b"
    and "disjoint_intervals h' a b \<longleftrightarrow> disjoint_intervals h a b"
    and "GetLeft h' a < GetRight h' a \<longleftrightarrow> GetLeft h a < GetRight h a"
proof -
  have iff: "f x < f y \<longleftrightarrow> x < y" if "x \<in> E" "y \<in> E" for x y
  proof
    assume "f x < f y"
    show "x < y"
    proof (rule ccontr)
      assume "\<not> x < y"
      then have "y < x \<or> y = x" by auto
      then have "f y \<le> f x" using f[OF that(2) that(1)] by auto
      with \<open>f x < f y\<close> show False by simp
    qed
  next
    assume "x < y" then show "f x < f y" using f that by blast
  qed
  show "strictly_contains h' a b \<longleftrightarrow> strictly_contains h a b"
    by (simp add: strictly_contains_def a b iff)
  show "disjoint_intervals h' a b \<longleftrightarrow> disjoint_intervals h a b"
    by (simp add: disjoint_intervals_def a b iff)
  show "GetLeft h' a < GetRight h' a \<longleftrightarrow> GetLeft h a < GetRight h a"
    by (simp add: a iff)
qed

lemma order_map_laminar:
  assumes "laminar h S"
    and "\<And>x y. x \<in> E \<Longrightarrow> y \<in> E \<Longrightarrow> x < y \<Longrightarrow> f x < f y"
    and "\<And>a. a \<in> S \<Longrightarrow> GetLeft h a \<in> E \<and> GetRight h a \<in> E
          \<and> GetLeft h' a = f (GetLeft h a) \<and> GetRight h' a = f (GetRight h a)"
  shows "laminar h' S"
  unfolding laminar_def
proof (intro conjI ballI impI)
  fix a assume "a \<in> S"
  then show "GetLeft h' a < GetRight h' a"
    using order_map_relations(3)[of E f h a h' a] assms(2,3) laminar_left_right[OF assms(1)]
    by blast
next
  fix a b assume ab: "a \<in> S" "b \<in> S" "a \<noteq> b"
  have "strictly_contains h' a b \<longleftrightarrow> strictly_contains h a b"
    "strictly_contains h' b a \<longleftrightarrow> strictly_contains h b a"
    "disjoint_intervals h' a b \<longleftrightarrow> disjoint_intervals h a b"
    using order_map_relations(1)[of E f h a h' b] order_map_relations(1)[of E f h b h' a]
      order_map_relations(2)[of E f h a h' b] assms(2) assms(3)[OF ab(1)] assms(3)[OF ab(2)]
    by blast+
  then show "disjoint_intervals h' a b \<or> strictly_contains h' a b \<or> strictly_contains h' b a"
    using laminar_pair[OF assms(1) ab] by simp
qed

lemma order_map_levelled:
  assumes "levelled h S"
    and "\<And>x y. x \<in> E \<Longrightarrow> y \<in> E \<Longrightarrow> x < y \<Longrightarrow> f x < f y"
    and "\<And>a. a \<in> S \<Longrightarrow> GetLeft h a \<in> E \<and> GetRight h a \<in> E
          \<and> GetLeft h' a = f (GetLeft h a) \<and> GetRight h' a = f (GetRight h a)"
    and "\<And>a. a \<in> S \<Longrightarrow> GetLevel h' a = GetLevel h a"
  shows "levelled h' S"
  unfolding levelled_def
proof
  fix a assume a: "a \<in> S"
  have "{b \<in> S. strictly_contains h' b a} = {b \<in> S. strictly_contains h b a}"
    using order_map_relations(1)[of E f h _ h' a] assms(2) assms(3)[OF a] assms(3)
    by blast
  then show "GetLevel h' a = int (card {b \<in> S. strictly_contains h' b a})"
    using assms(1,4) a by (simp add: levelled_def)
qed

lemma order_map_rooted:
  assumes "rooted h S r"
    and "\<And>x y. x \<in> E \<Longrightarrow> y \<in> E \<Longrightarrow> x < y \<Longrightarrow> f x < f y"
    and "\<And>a. a \<in> S \<Longrightarrow> GetLeft h a \<in> E \<and> GetRight h a \<in> E
          \<and> GetLeft h' a = f (GetLeft h a) \<and> GetRight h' a = f (GetRight h a)"
  shows "rooted h' S r"
  unfolding rooted_def
proof (intro conjI ballI impI)
  show "r \<in> S" using assms(1) by (simp add: rooted_def)
next
  fix a assume a: "a \<in> S" "a \<noteq> r"
  have r: "r \<in> S" using assms(1) by (simp add: rooted_def)
  have "strictly_contains h' r a \<longleftrightarrow> strictly_contains h r a"
    using order_map_relations(1)[of E f h r h' a] assms(2) assms(3)[OF a(1)] assms(3)[OF r]
    by blast
  then show "strictly_contains h' r a" using assms(1) a by (simp add: rooted_def)
qed

section \<open>Add keeps the collection consistent\<close>

text \<open>
  A new interval of width one, placed just inside the right bound of \<open>p\<close>
  where no other bound lies, is a leaf below \<open>p\<close>.
\<close>

lemma insert_leaf:
  assumes lam: "laminar h S" and lev: "levelled h S" and fin: "finite S"
    and nn: "nn \<notin> S" and p: "p \<in> S"
    and new: "GetLeft h nn = ip" "GetRight h nn = ip + 1" "GetLevel h nn = GetLevel h p + 1"
    and par: "GetLeft h p < ip" "GetRight h p = ip + 2"
    and free: "\<And>a. a \<in> S \<Longrightarrow> GetLeft h a \<noteq> ip \<and> GetLeft h a \<noteq> ip + 1
                  \<and> GetRight h a \<noteq> ip \<and> GetRight h a \<noteq> ip + 1"
  shows "laminar h (insert nn S)" and "levelled h (insert nn S)"
    and "strictly_contains h p nn"
proof -
  have rel: "(disjoint_intervals h a nn \<or> strictly_contains h a nn) \<and> \<not> strictly_contains h nn a"
    if "a \<in> S" for a
    using free[OF that] laminar_left_right[OF lam that] new
    by (auto simp: disjoint_intervals_def strictly_contains_def)
  have rel': "disjoint_intervals h nn a \<or> strictly_contains h a nn" if "a \<in> S" for a
    using rel[OF that] by (auto simp: disjoint_intervals_def)
  show "laminar h (insert nn S)"
    unfolding laminar_def
  proof (intro conjI ballI impI)
    fix a assume "a \<in> insert nn S"
    then show "GetLeft h a < GetRight h a"
      using laminar_left_right[OF lam] new by auto
  next
    fix a b assume "a \<in> insert nn S" "b \<in> insert nn S" "a \<noteq> b"
    then show "disjoint_intervals h a b \<or> strictly_contains h a b \<or> strictly_contains h b a"
      using rel rel' laminar_pair[OF lam] by blast
  qed
  show pn: "strictly_contains h p nn"
    using par new by (simp add: strictly_contains_def)
  have up: "{b \<in> insert nn S. strictly_contains h b nn}
      = insert p {b \<in> S. strictly_contains h b p}"
  proof (intro set_eqI iffI)
    fix b assume "b \<in> {b \<in> insert nn S. strictly_contains h b nn}"
    then have b: "b \<in> S" "strictly_contains h b nn"
      by (auto simp: sc_irrefl)
    show "b \<in> insert p {b \<in> S. strictly_contains h b p}"
    proof (cases "b = p")
      case True then show ?thesis by simp
    next
      case False
      then have "strictly_contains h b p"
        using laminar_pair[OF lam b(1) p False] b(2) par new free[OF b(1)]
        by (auto simp: disjoint_intervals_def strictly_contains_def)
      then show ?thesis using b(1) by simp
    qed
  next
    fix b assume "b \<in> insert p {b \<in> S. strictly_contains h b p}"
    then show "b \<in> {b \<in> insert nn S. strictly_contains h b nn}"
      using p pn by (auto simp: strictly_contains_def)
  qed
  have "p \<notin> {b \<in> S. strictly_contains h b p}" by (simp add: sc_irrefl)
  moreover have "finite {b \<in> S. strictly_contains h b p}" using fin by simp
  ultimately have cnt: "card {b \<in> insert nn S. strictly_contains h b nn}
      = Suc (card {b \<in> S. strictly_contains h b p})"
    unfolding up by simp
  show "levelled h (insert nn S)"
    unfolding levelled_def
  proof
    fix a assume a: "a \<in> insert nn S"
    show "GetLevel h a = int (card {b \<in> insert nn S. strictly_contains h b a})"
    proof (cases "a = nn")
      case True
      then show ?thesis
        using cnt new(3) lev p by (simp add: levelled_def)
    next
      case False
      then have "a \<in> S" using a by simp
      then have "{b \<in> insert nn S. strictly_contains h b a} = {b \<in> S. strictly_contains h b a}"
        using rel by auto
      then show ?thesis using lev \<open>a \<in> S\<close> by (simp add: levelled_def)
    qed
  qed
qed

lemma sc_trans:
  "strictly_contains h a b \<Longrightarrow> strictly_contains h b c \<Longrightarrow> strictly_contains h a c"
  by (auto simp: strictly_contains_def)

lemma Add_consistent:
  assumes c: "consistent s" and nn: "nn \<notin> set (nodes s)"
    and par: "case parent0 of None \<Rightarrow> True | Some q \<Rightarrow> q \<in> set (nodes s)"
  shows "fst (Add s (Some nn) parent0) = Success"
    and "consistent (snd (Add s (Some nn) parent0))"
proof -
  define S where "S = set (nodes s)"
  define h where "h = mem s"
  define p where "p = (case parent0 of None \<Rightarrow> rootNode s | Some q \<Rightarrow> q)"
  define ip where "ip = GetRight h p"
  define h3 where "h3 = SetRight nn (ip + 1) (SetLeft nn ip (SetLevel nn (GetLevel h p + 1) h))"
  define h' where "h' = (\<lambda>m. if m \<in> S then widen_node ip (h3 m) else h3 m)"
  define f where "f = (\<lambda>e::int. if e \<ge> ip then e + 2 else e)"
  have d: "distinct (nodes s)" and root: "rooted h S (rootNode s)"
    and lam: "laminar h S" and lev: "levelled h S"
    using c by (simp_all add: consistent_iff S_def h_def)
  have add: "Add s (Some nn) parent0 =
      (Success, s\<lparr>mem := h', nodes := nodes s @ [nn], maxId := maxId s + 1\<rparr>)"
    unfolding p_def ip_def h3_def h'_def h_def S_def
    by (rule Add_store[OF d par refl refl refl])
  show "fst (Add s (Some nn) parent0) = Success" by (simp add: add)
  have p: "p \<in> S"
    using par root by (cases parent0) (auto simp: p_def S_def rooted_def)
  have pn: "p \<noteq> nn" using p nn by (auto simp: S_def)
  have old3: "h3 a = h a" if "a \<in> S" for a
    using that nn by (auto simp: h3_def S_def setters)
  have lne: "GetLeft h a \<noteq> ip" if "a \<in> S" for a
    using laminar_bounds_differ(2)[OF lam that p] laminar_left_right[OF lam p]
    by (cases "a = p") (auto simp: ip_def)
  have old: "GetLeft h' a = f (GetLeft h a) \<and> GetRight h' a = f (GetRight h a)
      \<and> GetLevel h' a = GetLevel h a" if "a \<in> S" for a
    using that lne[OF that] laminar_left_right[OF lam that]
    by (auto simp: h'_def old3 widen_node_def f_def getters)
  have mono: "\<And>x y. x \<in> UNIV \<Longrightarrow> y \<in> UNIV \<Longrightarrow> x < y \<Longrightarrow> f x < f y"
    by (auto simp: f_def)
  have trans: "\<And>a. a \<in> S \<Longrightarrow> GetLeft h a \<in> UNIV \<and> GetRight h a \<in> UNIV
          \<and> GetLeft h' a = f (GetLeft h a) \<and> GetRight h' a = f (GetRight h a)"
    using old by simp
  have lam': "laminar h' S" by (rule order_map_laminar[OF lam mono trans])
  have lvl: "\<And>a. a \<in> S \<Longrightarrow> GetLevel h' a = GetLevel h a"
    using old by blast
  have lev': "levelled h' S" by (rule order_map_levelled[OF lev mono trans lvl])
  have root': "rooted h' S (rootNode s)" by (rule order_map_rooted[OF root mono trans])
  have new: "GetLeft h' nn = ip" "GetRight h' nn = ip + 1" "GetLevel h' nn = GetLevel h' p + 1"
    using nn pn old[OF p] by (auto simp: h'_def h3_def S_def getters setters)
  have par': "GetLeft h' p < ip" "GetRight h' p = ip + 2"
    using old[OF p] laminar_left_right[OF lam p] by (auto simp: f_def ip_def)
  have free: "GetLeft h' a \<noteq> ip \<and> GetLeft h' a \<noteq> ip + 1
      \<and> GetRight h' a \<noteq> ip \<and> GetRight h' a \<noteq> ip + 1" if "a \<in> S" for a
    using old[OF that] by (auto simp: f_def)
  have fin: "finite S" by (simp add: S_def)
  have nS: "nn \<notin> S" using nn by (simp add: S_def)
  note leaf = insert_leaf[OF lam' lev' fin nS p new par' free]
  have "rooted h' (insert nn S) (rootNode s)"
    unfolding rooted_def
  proof (intro conjI ballI impI)
    show "rootNode s \<in> insert nn S" using root' by (simp add: rooted_def)
  next
    fix a assume a: "a \<in> insert nn S" "a \<noteq> rootNode s"
    show "strictly_contains h' (rootNode s) a"
    proof (cases "a = nn")
      case False
      then show ?thesis using root' a by (simp add: rooted_def)
    next
      case True
      show ?thesis
      proof (cases "p = rootNode s")
        case True
        then show ?thesis using leaf(3) \<open>a = nn\<close> by simp
      next
        case False
        then have "strictly_contains h' (rootNode s) p"
          using root' p by (simp add: rooted_def)
        then show ?thesis using leaf(3) \<open>a = nn\<close> sc_trans by blast
      qed
    qed
  qed
  then show "consistent (snd (Add s (Some nn) parent0))"
    using leaf(1,2) d nn by (simp add: add consistent_iff S_def)
qed

section \<open>Delete keeps the collection consistent\<close>

lemma levelled_subset:
  assumes "levelled h S" "S' \<subseteq> S"
    and "\<And>a b. a \<in> S' \<Longrightarrow> b \<in> S \<Longrightarrow> strictly_contains h b a \<Longrightarrow> b \<in> S'"
  shows "levelled h S'"
  unfolding levelled_def
proof
  fix a assume a: "a \<in> S'"
  have "{b \<in> S'. strictly_contains h b a} = {b \<in> S. strictly_contains h b a}"
    using assms(2,3) a by blast
  then show "GetLevel h a = int (card {b \<in> S'. strictly_contains h b a})"
    using assms(1,2) a by (auto simp: levelled_def)
qed

lemma rooted_subset:
  "rooted h S r \<Longrightarrow> S' \<subseteq> S \<Longrightarrow> r \<in> S' \<Longrightarrow> rooted h S' r"
  by (auto simp: rooted_def)

lemma Delete_consistent:
  assumes c: "consistent s" and nd: "nd \<in> set (nodes s)" and nr: "nd \<noteq> rootNode s"
  shows "fst (Delete s (Some nd)) = Success"
    and "consistent (snd (Delete s (Some nd)))"
proof -
  define S where "S = set (nodes s)"
  define h where "h = mem s"
  define nl where "nl = GetLeft h nd"
  define nr where "nr = GetRight h nd"
  define w where "w = nr - nl + 1"
  define S' where "S' = {a \<in> S. survives nl nr (h a)}"
  define h' where "h' = (\<lambda>m. if m \<in> S \<and> survives nl nr (h m) then close_node nl nr (h m) else h m)"
  define f where "f = (\<lambda>e::int. if e > nr then e - w else e)"
  define E where "E = {e::int. e < nl \<or> e > nr}"
  have d: "distinct (nodes s)" and root: "rooted h S (rootNode s)"
    and lam: "laminar h S" and lev: "levelled h S"
    using c by (simp_all add: consistent_iff S_def h_def)
  have del: "Delete s (Some nd) =
      (Success, s\<lparr>mem := h', nodes := filter (\<lambda>m. survives nl nr (h m)) (nodes s)\<rparr>)"
    unfolding nl_def nr_def h'_def h_def S_def
    by (rule Delete_store[OF d nd assms(3) refl refl])
  show "fst (Delete s (Some nd)) = Success" by (simp add: del)
  have ndS: "nd \<in> S" using nd by (simp add: S_def)
  have lr: "nl < nr" using laminar_left_right[OF lam ndS] by (simp add: nl_def nr_def)
  have sub: "S' \<subseteq> S" by (auto simp: S'_def)
  have out: "GetLeft h a \<in> E \<and> GetRight h a \<in> E" if "a \<in> S'" for a
  proof -
    have a: "a \<in> S" "a \<noteq> nd" "GetLeft h a < nl \<or> GetRight h a > nr"
      using that by (auto simp: S'_def survives_def getters nl_def nr_def)
    show ?thesis
      using laminar_pair[OF lam a(1) ndS a(2)] laminar_left_right[OF lam a(1)] a(3)
      by (auto simp: E_def disjoint_intervals_def strictly_contains_def nl_def nr_def)
  qed
  have mono: "\<And>x y. x \<in> E \<Longrightarrow> y \<in> E \<Longrightarrow> x < y \<Longrightarrow> f x < f y"
    using lr by (auto simp: f_def E_def w_def)
  have old: "GetLeft h' a = f (GetLeft h a) \<and> GetRight h' a = f (GetRight h a)
      \<and> GetLevel h' a = GetLevel h a" if "a \<in> S'" for a
    using that out[OF that] lr
    by (auto simp: h'_def S'_def close_node_def f_def E_def w_def getters)
  have trans: "\<And>a. a \<in> S' \<Longrightarrow> GetLeft h a \<in> E \<and> GetRight h a \<in> E
          \<and> GetLeft h' a = f (GetLeft h a) \<and> GetRight h' a = f (GetRight h a)"
    using old out by simp
  have lvl: "\<And>a. a \<in> S' \<Longrightarrow> GetLevel h' a = GetLevel h a"
    using old by blast
  have lamS': "laminar h S'" by (rule laminar_subset[OF lam sub])
  have levS': "levelled h S'"
  proof (rule levelled_subset[OF lev sub])
    fix a b assume "a \<in> S'" "b \<in> S" "strictly_contains h b a"
    then show "b \<in> S'"
      using out[of a]
      by (auto simp: S'_def survives_def E_def strictly_contains_def getters)
  qed
  have rS': "rootNode s \<in> S'"
    using root ndS assms(3)
    by (auto simp: rooted_def S'_def survives_def strictly_contains_def getters nl_def)
  have rootS': "rooted h S' (rootNode s)" by (rule rooted_subset[OF root sub rS'])
  have lam': "laminar h' S'" by (rule order_map_laminar[OF lamS' mono trans])
  have lev': "levelled h' S'" by (rule order_map_levelled[OF levS' mono trans lvl])
  have root': "rooted h' S' (rootNode s)" by (rule order_map_rooted[OF rootS' mono trans])
  have "set (filter (\<lambda>m. survives nl nr (h m)) (nodes s)) = S'"
    by (auto simp: S'_def S_def)
  then show "consistent (snd (Delete s (Some nd)))"
    using lam' lev' root' d by (simp add: del consistent_iff)
qed

section \<open>Move keeps the collection consistent\<close>

lemma shift_up_eq: "shift_up l rn w n h = h(n := shift_up_node l rn w (h n))"
  by (auto simp: shift_up_def shift_up_node_def getters setters Let_def fun_eq_iff)

lemma shift_down_eq: "shift_down r rn w n h = h(n := shift_down_node r rn w (h n))"
  by (auto simp: shift_down_def shift_down_node_def getters setters Let_def fun_eq_iff)

lemma translate_eq: "translate k kl n h = h(n := translate_node k kl (h n))"
  by (auto simp: translate_def translate_node_def getters setters Let_def fun_eq_iff)

lemma fold_shift_up:
  "distinct xs \<Longrightarrow> fold (shift_up l rn w) xs h
     = (\<lambda>m. if m \<in> set xs then shift_up_node l rn w (h m) else h m)"
  by (rule fold_pointwise) (rule shift_up_eq)

lemma fold_shift_down:
  "distinct xs \<Longrightarrow> fold (shift_down r rn w) xs h
     = (\<lambda>m. if m \<in> set xs then shift_down_node r rn w (h m) else h m)"
  by (rule fold_pointwise) (rule shift_down_eq)

lemma fold_translate:
  "distinct xs \<Longrightarrow> fold (translate k kl) xs h
     = (\<lambda>m. if m \<in> set xs then translate_node k kl (h m) else h m)"
  by (rule fold_pointwise) (rule translate_eq)

lemma Move_store:
  assumes d: "distinct (nodes s)" and nd: "nd \<in> set (nodes s)"
    and lvl: "GetLevel (mem s) nd \<noteq> 0"
    and p: "p = (case parent0 of None \<Rightarrow> rootNode s | Some q \<Rightarrow> q)"
    and within: "\<not> (GetLeft (mem s) p \<ge> GetLeft (mem s) nd \<and> GetRight (mem s) p \<le> GetRight (mem s) nd)"
    and cur: "parent s nd = Some cp" "cp \<noteq> p"
    and nl: "nl = GetLeft (mem s) nd" and nr: "nr = GetRight (mem s) nd"
    and rn: "rn = GetRight (mem s) p - 1"
    and g: "g = (if rn < nr then shift_up_node nl rn (nr - nl + 1)
                 else shift_down_node nr rn (nr - nl + 1))"
    and k: "k = (if rn < nr then rn - nl + 1 else rn - nl + 1 - (nr - nl + 1))"
    and kl: "kl = GetLevel (mem s) p - GetLevel (mem s) nd + 1"
  shows "Move s (Some nd) parent0 =
     (Success, s\<lparr>nodes := sort_key (GetLeft (mem s)) (nodes s),
                 mem := (\<lambda>m. if m \<in> set (nodes s)
                              then (if nl \<le> GetLeft (mem s) m \<and> GetRight (mem s) m \<le> nr
                                    then translate_node k kl (g (mem s m)) else g (mem s m))
                              else mem s m)\<rparr>)"
proof -
  let ?xs = "sort_key (GetLeft (mem s)) (nodes s)"
  let ?tu = "filter (\<lambda>n. GetLeft (mem s) n \<ge> nl \<and> GetRight (mem s) n \<le> nr) ?xs"
  have dx: "distinct ?xs" and sx: "set ?xs = set (nodes s)" using d by simp_all
  have dt: "distinct ?tu" using dx by simp
  have br: "branch s (Some nd) = (?tu, s\<lparr>nodes := ?xs\<rparr>)"
    using nd by (simp add: branch_def exists_node_iff Let_def nl nr)
  have st: "set ?tu = {m \<in> set (nodes s). nl \<le> GetLeft (mem s) m \<and> GetRight (mem s) m \<le> nr}"
    by auto
  have h2: "fold (translate k kl) ?tu (fold step ?xs (mem s)) =
       (\<lambda>m. if m \<in> set (nodes s)
                              then (if nl \<le> GetLeft (mem s) m \<and> GetRight (mem s) m \<le> nr
                                    then translate_node k kl (g (mem s m)) else g (mem s m))
                              else mem s m)"
    if "fold step ?xs (mem s) = (\<lambda>m. if m \<in> set ?xs then g (mem s m) else mem s m)" for step
    unfolding that fold_translate[OF dt] st sx by (auto simp: fun_eq_iff)
  show ?thesis
  proof (cases "rn < nr")
    case True
    have g': "g = shift_up_node nl rn (nr - nl + 1)" using True by (simp add: g)
    have "fold (shift_up nl rn (nr - nl + 1)) ?xs (mem s)
        = (\<lambda>m. if m \<in> set ?xs then g (mem s m) else mem s m)"
      unfolding g' by (rule fold_shift_up[OF dx])
    note h2[OF this]
    then show ?thesis
      using lvl within cur True
      unfolding Move_def
      by (simp add: Let_def p[symmetric] nl[symmetric] nr[symmetric] rn[symmetric] br k kl)
  next
    case False
    have g': "g = shift_down_node nr rn (nr - nl + 1)" using False by (simp add: g)
    have "fold (shift_down nr rn (nr - nl + 1)) ?xs (mem s)
        = (\<lambda>m. if m \<in> set ?xs then g (mem s m) else mem s m)"
      unfolding g' by (rule fold_shift_down[OF dx])
    note h2[OF this]
    then show ?thesis
      using lvl within cur False
      unfolding Move_def
      by (simp add: Let_def p[symmetric] nl[symmetric] nr[symmetric] rn[symmetric] br k kl)
  qed
qed

text \<open>
  The relocation of a branch, seen on the bounds only. The nodes inside the
  interval of \<open>nd\<close> (the family \<open>T\<close>) are translated by \<open>k\<close>; the bounds of
  all other nodes lie outside that interval and are moved by a map \<open>f\<close> that
  keeps their order and sends the bounds below the right bound of \<open>p\<close> below
  the window where the branch lands, the others above it.
\<close>

lemma relocate_branch:
  assumes lam: "laminar h S" and lev: "levelled h S" and fin: "finite S"
    and nd: "nd \<in> S" and p: "p \<in> S"
    and nl: "nl = GetLeft h nd" and nr: "nr = GetRight h nd" and pr: "pr = GetRight h p"
    and T: "T = {a \<in> S. nl \<le> GetLeft h a \<and> GetRight h a \<le> nr}"
    and pT: "p \<notin> T"
    and E: "E = {e. e < nl \<or> e > nr}"
    and mono: "\<And>x y. x \<in> E \<Longrightarrow> y \<in> E \<Longrightarrow> x < y \<Longrightarrow> f x < f y"
    and win: "\<And>e. e \<in> E \<Longrightarrow> (f e < nl + k \<longleftrightarrow> e < pr) \<and> (f e > nr + k \<longleftrightarrow> e \<ge> pr)"
    and U: "\<And>a. a \<in> S \<Longrightarrow> a \<notin> T \<Longrightarrow>
             GetLeft h' a = f (GetLeft h a) \<and> GetRight h' a = f (GetRight h a)
             \<and> GetLevel h' a = GetLevel h a"
    and Tm: "\<And>a. a \<in> T \<Longrightarrow>
             GetLeft h' a = GetLeft h a + k \<and> GetRight h' a = GetRight h a + k
             \<and> GetLevel h' a = GetLevel h a + (GetLevel h p - GetLevel h nd + 1)"
  shows "laminar h' S" and "levelled h' S"
    and "rooted h S r \<Longrightarrow> nd \<noteq> r \<Longrightarrow> rooted h' S r"
proof -
  have ndT: "nd \<in> T" using nd by (simp add: T nl nr)
  have TS: "T \<subseteq> S" by (auto simp: T)
  have lr: "nl < nr" using laminar_left_right[OF lam nd] by (simp add: nl nr)
  have outE: "GetLeft h a \<in> E \<and> GetRight h a \<in> E" if "a \<in> S" "a \<notin> T" for a
  proof -
    have "a \<noteq> nd" using that ndT by auto
    then show ?thesis
      using laminar_pair[OF lam that(1) nd] laminar_left_right[OF lam that(1)] that
      by (auto simp: E T disjoint_intervals_def strictly_contains_def nl nr)
  qed
  have inT: "nl \<le> GetLeft h a \<and> GetLeft h a < GetRight h a \<and> GetRight h a \<le> nr"
    if "a \<in> T" for a
    using that laminar_left_right[OF lam, of a] by (auto simp: T)
  have newU: "(GetLeft h' a < nl + k \<or> GetLeft h' a > nr + k)
      \<and> (GetRight h' a < nl + k \<or> GetRight h' a > nr + k)
      \<and> (GetLeft h' a < nl + k \<longleftrightarrow> GetLeft h a < pr)
      \<and> (GetRight h' a > nr + k \<longleftrightarrow> GetRight h a \<ge> pr)"
    if "a \<in> S" "a \<notin> T" for a
    using U[OF that] outE[OF that] win[of "GetLeft h a"] win[of "GetRight h a"]
    by auto
  have newT: "nl + k \<le> GetLeft h' a \<and> GetLeft h' a < GetRight h' a \<and> GetRight h' a \<le> nr + k"
    if "a \<in> T" for a
    using Tm[OF that] inT[OF that] by auto
  text \<open>Relations inside each family are kept.\<close>
  have relU: "(strictly_contains h' a b \<longleftrightarrow> strictly_contains h a b)
      \<and> (disjoint_intervals h' a b \<longleftrightarrow> disjoint_intervals h a b)
      \<and> (GetLeft h' a < GetRight h' a \<longleftrightarrow> GetLeft h a < GetRight h a)"
    if "a \<in> S" "a \<notin> T" "b \<in> S" "b \<notin> T" for a b
    using order_map_relations[of E f h a h' b] mono U[OF that(1,2)] U[OF that(3,4)]
      outE[OF that(1,2)] outE[OF that(3,4)]
      order_map_relations(3)[of E f h a h' a]
    by blast
  have relT: "(strictly_contains h' a b \<longleftrightarrow> strictly_contains h a b)
      \<and> (disjoint_intervals h' a b \<longleftrightarrow> disjoint_intervals h a b)"
    if "a \<in> T" "b \<in> T" for a b
    using Tm[OF that(1)] Tm[OF that(2)]
    by (auto simp: strictly_contains_def disjoint_intervals_def)
  text \<open>Across the families.\<close>
  have above: "(GetLeft h a < pr \<and> pr \<le> GetRight h a) \<longleftrightarrow> (a = p \<or> strictly_contains h a p)"
    if "a \<in> S" for a
  proof (cases "a = p")
    case True
    then show ?thesis using laminar_left_right[OF lam p] by (simp add: pr)
  next
    case False
    show ?thesis
      using laminar_pair[OF lam that p False] laminar_bounds_differ[OF lam that p False]
        laminar_left_right[OF lam p] laminar_left_right[OF lam that] False
      by (auto simp: pr disjoint_intervals_def strictly_contains_def)
  qed
  have crossN: "(disjoint_intervals h' a b \<or> strictly_contains h' a b)
      \<and> \<not> strictly_contains h' b a
      \<and> (strictly_contains h' a b \<longleftrightarrow> (a = p \<or> strictly_contains h a p))"
    if "a \<in> S" "a \<notin> T" "b \<in> T" for a b
  proof -
    have lr': "GetLeft h' a < GetRight h' a"
      using relU[OF that(1,2) that(1,2)] laminar_left_right[OF lam that(1)] by simp
    have "strictly_contains h' a b \<longleftrightarrow> (GetLeft h a < pr \<and> pr \<le> GetRight h a)"
      using newU[OF that(1,2)] newT[OF that(3)] lr'
      by (auto simp: strictly_contains_def)
    moreover have "(disjoint_intervals h' a b \<or> strictly_contains h' a b)
      \<and> \<not> strictly_contains h' b a"
      using newU[OF that(1,2)] newT[OF that(3)] lr'
      by (auto simp: strictly_contains_def disjoint_intervals_def)
    ultimately show ?thesis using above[OF that(1)] by simp
  qed
  have crossO: "\<not> strictly_contains h b a
      \<and> (strictly_contains h a b \<longleftrightarrow> strictly_contains h a nd)"
    if "a \<in> S" "a \<notin> T" "b \<in> T" for a b
    using outE[OF that(1,2)] inT[OF that(3)] laminar_left_right[OF lam that(1)] lr
    by (auto simp: strictly_contains_def E nl nr)
  show lam': "laminar h' S"
    unfolding laminar_def
  proof (intro conjI ballI impI)
    fix a assume "a \<in> S"
    then show "GetLeft h' a < GetRight h' a"
      using relU[of a a] newT[of a] laminar_left_right[OF lam, of a] by blast
  next
    fix a b assume ab: "a \<in> S" "b \<in> S" "a \<noteq> b"
    have dsym: "disjoint_intervals h' b a \<longleftrightarrow> disjoint_intervals h' a b"
      by (auto simp: disjoint_intervals_def)
    consider "a \<in> T" "b \<in> T" | "a \<in> T" "b \<notin> T" | "a \<notin> T" "b \<in> T" | "a \<notin> T" "b \<notin> T"
      by blast
    then show "disjoint_intervals h' a b \<or> strictly_contains h' a b \<or> strictly_contains h' b a"
    proof cases
      case 1
      then show ?thesis using relT[OF 1] relT[OF 1(2) 1(1)] laminar_pair[OF lam ab] by simp
    next
      case 2
      then show ?thesis using crossN[OF ab(2) 2(2) 2(1)] dsym by blast
    next
      case 3
      then show ?thesis using crossN[OF ab(1) 3(1) 3(2)] by blast
    next
      case 4
      then show ?thesis
        using relU[OF ab(1) 4(1) ab(2) 4(2)] relU[OF ab(2) 4(2) ab(1) 4(1)]
          laminar_pair[OF lam ab] by simp
    qed
  qed
  text \<open>Levels.\<close>
  have pU: "p \<in> S" "p \<notin> T" using p pT by auto
  have upT: "b \<notin> T" if "b \<in> S" "strictly_contains h b p" for b
    using that outE[OF pU] inT[of b] laminar_left_right[OF lam p] lr
    by (auto simp: strictly_contains_def E)
  have upNd: "b \<notin> T" if "b \<in> S" "strictly_contains h b nd" for b
    using that inT[of b] by (auto simp: strictly_contains_def nl nr)
  have finA: "finite {b \<in> S. P b}" for P using fin by simp
  show "levelled h' S"
    unfolding levelled_def
  proof
    fix a assume a: "a \<in> S"
    show "GetLevel h' a = int (card {b \<in> S. strictly_contains h' b a})"
    proof (cases "a \<in> T")
      case False
      have "{b \<in> S. strictly_contains h' b a} = {b \<in> S. strictly_contains h b a}"
      proof (intro set_eqI iffI; clarsimp)
        fix b assume b: "b \<in> S" "strictly_contains h' b a"
        show "strictly_contains h b a"
          using crossN[OF a False, of b] relU[OF b(1) _ a False] b by blast
      next
        fix b assume b: "b \<in> S" "strictly_contains h b a"
        show "strictly_contains h' b a"
          using crossO[OF a False, of b] relU[OF b(1) _ a False] b by blast
      qed
      then show ?thesis
        using U[OF a False] lev a by (simp add: levelled_def)
    next
      case True
      let ?in = "{b \<in> T. strictly_contains h b a}"
      have new: "{b \<in> S. strictly_contains h' b a}
          = ?in \<union> insert p {b \<in> S. strictly_contains h b p}"
      proof (intro set_eqI iffI)
        fix b assume "b \<in> {b \<in> S. strictly_contains h' b a}"
        then have b: "b \<in> S" "strictly_contains h' b a" by auto
        show "b \<in> ?in \<union> insert p {b \<in> S. strictly_contains h b p}"
          using b relT[of b a] True crossN[OF b(1) _ True] by blast
      next
        fix b assume b: "b \<in> ?in \<union> insert p {b \<in> S. strictly_contains h b p}"
        then show "b \<in> {b \<in> S. strictly_contains h' b a}"
          using relT[of b a] True crossN[of b a] TS pU upT by blast
      qed
      have old: "{b \<in> S. strictly_contains h b a}
          = ?in \<union> {b \<in> S. strictly_contains h b nd}"
      proof (intro set_eqI iffI)
        fix b assume "b \<in> {b \<in> S. strictly_contains h b a}"
        then have b: "b \<in> S" "strictly_contains h b a" by auto
        show "b \<in> ?in \<union> {b \<in> S. strictly_contains h b nd}"
          using b crossO[OF b(1) _ True] by blast
      next
        fix b assume b: "b \<in> ?in \<union> {b \<in> S. strictly_contains h b nd}"
        then show "b \<in> {b \<in> S. strictly_contains h b a}"
          using crossO[of b a] True TS upNd by blast
      qed
      have dj1: "?in \<inter> insert p {b \<in> S. strictly_contains h b p} = {}"
        using pU upT by blast
      have dj2: "?in \<inter> {b \<in> S. strictly_contains h b nd} = {}"
        using upNd TS by blast
      have finin: "finite ?in" using fin TS by (auto intro: finite_subset)
      have pn: "p \<notin> {b \<in> S. strictly_contains h b p}" by (simp add: sc_irrefl)
      have c1: "card {b \<in> S. strictly_contains h' b a}
          = card ?in + Suc (card {b \<in> S. strictly_contains h b p})"
        unfolding new using card_Un_disjoint[OF finin _ dj1] finA pn by simp
      have c2: "card {b \<in> S. strictly_contains h b a}
          = card ?in + card {b \<in> S. strictly_contains h b nd}"
        unfolding old using card_Un_disjoint[OF finin _ dj2] finA by simp
      have "GetLevel h a = int (card ?in) + GetLevel h nd"
        using lev a nd c2 by (simp add: levelled_def)
      moreover have "GetLevel h p = int (card {b \<in> S. strictly_contains h b p})"
        using lev p by (simp add: levelled_def)
      ultimately show ?thesis
        using Tm[OF True] c1 by simp
    qed
  qed
  show "rooted h' S r" if r: "rooted h S r" "nd \<noteq> r"
    unfolding rooted_def
  proof (intro conjI ballI impI)
    show rS: "r \<in> S" using r by (simp add: rooted_def)
    have rT: "r \<notin> T"
      using r nd inT[of r] by (auto simp: rooted_def strictly_contains_def nl)
    fix a assume a: "a \<in> S" "a \<noteq> r"
    have old: "strictly_contains h r a" using r a by (simp add: rooted_def)
    show "strictly_contains h' r a"
    proof (cases "a \<in> T")
      case False
      then show ?thesis using relU[OF rS rT a(1) False] old by simp
    next
      case True
      have "r = p \<or> strictly_contains h r p" using r p by (auto simp: rooted_def)
      then show ?thesis using crossN[OF rS rT True] by simp
    qed
  qed
qed

lemma Move_Success_checks:
  assumes "fst (Move s (Some nd) parent0) = Success"
    and "p = (case parent0 of None \<Rightarrow> rootNode s | Some q \<Rightarrow> q)"
  shows "GetLevel (mem s) nd \<noteq> 0"
    and "\<not> (GetLeft (mem s) p \<ge> GetLeft (mem s) nd \<and> GetRight (mem s) p \<le> GetRight (mem s) nd)"
    and "\<exists>cp. parent s nd = Some cp \<and> cp \<noteq> p"
  using assms
  by (auto simp: Move_def Let_def split: if_splits option.splits prod.splits)

lemma root_level:
  assumes "rooted h S r" "levelled h S"
  shows "GetLevel h r = 0"
proof -
  have "{b \<in> S. strictly_contains h b r} = {}"
    using assms(1) by (auto simp: rooted_def strictly_contains_def)
  then have "card {b \<in> S. strictly_contains h b r} = 0" by (metis card.empty)
  moreover have "r \<in> S" using assms(1) by (simp add: rooted_def)
  ultimately show ?thesis using assms(2) by (simp add: levelled_def)
qed

lemma Move_consistent:
  assumes c: "consistent s" and nd: "nd \<in> set (nodes s)"
    and par: "case parent0 of None \<Rightarrow> True | Some q \<Rightarrow> q \<in> set (nodes s)"
    and ok: "fst (Move s (Some nd) parent0) = Success"
  shows "consistent (snd (Move s (Some nd) parent0))"
proof -
  define S where "S = set (nodes s)"
  define h where "h = mem s"
  define p where "p = (case parent0 of None \<Rightarrow> rootNode s | Some q \<Rightarrow> q)"
  define nl where "nl = GetLeft h nd"
  define nr where "nr = GetRight h nd"
  define pr where "pr = GetRight h p"
  define rn where "rn = pr - 1"
  define w where "w = nr - nl + 1"
  define g where "g = (if rn < nr then shift_up_node nl rn w else shift_down_node nr rn w)"
  define k where "k = (if rn < nr then rn - nl + 1 else rn - nl + 1 - w)"
  define kl where "kl = GetLevel h p - GetLevel h nd + 1"
  define T where "T = {a \<in> S. nl \<le> GetLeft h a \<and> GetRight h a \<le> nr}"
  define E where "E = {e::int. e < nl \<or> e > nr}"
  define f where "f = (\<lambda>e::int. if rn < nr then (if e < nl \<and> e > rn then e + w else e)
                                else (if e > nr \<and> e \<le> rn then e - w else e))"
  define h' where "h' = (\<lambda>m. if m \<in> S
                              then (if nl \<le> GetLeft h m \<and> GetRight h m \<le> nr
                                    then translate_node k kl (g (h m)) else g (h m))
                              else h m)"
  have d: "distinct (nodes s)" and root: "rooted h S (rootNode s)"
    and lam: "laminar h S" and lev: "levelled h S"
    using c by (simp_all add: consistent_iff S_def h_def)
  note chk = Move_Success_checks[OF ok p_def]
  obtain cp where cp: "parent s nd = Some cp" "cp \<noteq> p" using chk(3) by blast
  have mv: "Move s (Some nd) parent0 =
      (Success, s\<lparr>nodes := sort_key (GetLeft (mem s)) (nodes s), mem := h'\<rparr>)"
    unfolding h'_def g_def k_def kl_def w_def rn_def pr_def nl_def nr_def h_def S_def
    by (rule Move_store[OF d nd chk(1) p_def chk(2) cp refl refl refl refl refl refl])
  have ndS: "nd \<in> S" using nd by (simp add: S_def)
  have p: "p \<in> S"
    using par root by (cases parent0) (auto simp: p_def S_def rooted_def)
  have pT: "p \<notin> T" using chk(2) by (auto simp: T_def nl_def nr_def h_def)
  have lr: "nl < nr" using laminar_left_right[OF lam ndS] by (simp add: nl_def nr_def)
  have ndr: "nd \<noteq> rootNode s"
    using root_level[OF root lev] chk(1) by (auto simp: h_def)
  have pE: "pr < nl \<or> pr > nr"
  proof -
    have "p \<noteq> nd" using pT ndS by (auto simp: T_def nl_def nr_def)
    then show ?thesis
      using laminar_pair[OF lam p ndS] laminar_left_right[OF lam p] pT p
      by (auto simp: T_def pr_def nl_def nr_def disjoint_intervals_def strictly_contains_def)
  qed
  have mono: "\<And>x y. x \<in> E \<Longrightarrow> y \<in> E \<Longrightarrow> x < y \<Longrightarrow> f x < f y"
    using lr pE by (auto simp: E_def f_def w_def rn_def)
  have win: "\<And>e. e \<in> E \<Longrightarrow> (f e < nl + k \<longleftrightarrow> e < pr) \<and> (f e > nr + k \<longleftrightarrow> e \<ge> pr)"
    using lr pE by (auto simp: E_def f_def w_def rn_def k_def)
  have U0: "GetLeft h' a = f (GetLeft h a) \<and> GetRight h' a = f (GetRight h a)
             \<and> GetLevel h' a = GetLevel h a" if "a \<in> S" "a \<notin> T" for a
    using that
    by (auto simp: h'_def T_def g_def f_def shift_up_node_def shift_down_node_def getters)
  have Tm0: "GetLeft h' a = GetLeft h a + k \<and> GetRight h' a = GetRight h a + k
             \<and> GetLevel h' a = GetLevel h a + (GetLevel h p - GetLevel h nd + 1)"
    if "a \<in> T" for a
  proof -
    have "nl \<le> GetLeft h a" "GetLeft h a < GetRight h a" "GetRight h a \<le> nr" "a \<in> S"
      using that laminar_left_right[OF lam, of a] by (auto simp: T_def)
    then show ?thesis
      by (auto simp: h'_def g_def translate_node_def shift_up_node_def shift_down_node_def
          getters kl_def)
  qed
  have U: "\<And>a. a \<in> S \<Longrightarrow> a \<notin> T \<Longrightarrow>
             GetLeft h' a = f (GetLeft h a) \<and> GetRight h' a = f (GetRight h a)
             \<and> GetLevel h' a = GetLevel h a"
    using U0 by blast
  have Tm: "\<And>a. a \<in> T \<Longrightarrow>
             GetLeft h' a = GetLeft h a + k \<and> GetRight h' a = GetRight h a + k
             \<and> GetLevel h' a = GetLevel h a + (GetLevel h p - GetLevel h nd + 1)"
    using Tm0 by blast
  have fin: "finite S" by (simp add: S_def)
  have l': "laminar h' S"
    by (rule relocate_branch(1)[OF lam lev fin ndS p nl_def nr_def pr_def T_def pT E_def mono win U Tm];
        assumption)
  have v': "levelled h' S"
    by (rule relocate_branch(2)[OF lam lev fin ndS p nl_def nr_def pr_def T_def pT E_def mono win U Tm];
        assumption)
  have r': "rooted h' S (rootNode s)"
    by (rule relocate_branch(3)[OF lam lev fin ndS p nl_def nr_def pr_def T_def pT E_def mono win U Tm];
        (assumption | rule root | rule ndr))
  show ?thesis
    using l' v' r' d by (simp add: mv consistent_iff S_def)
qed

section \<open>Sequences of operations keep the invariants\<close>

lemma New_consistent:
  assumes "GetLeft h r = 0" "GetLevel h r = 0" "NewNestedSet h (Some r) = Returns s0"
  shows "consistent s0"
proof -
  have s0: "s0 = \<lparr>mem = SetRight r 1 h, nodes = [r], rootNode = r, maxId = 0\<rparr>"
    using assms(3) by (simp add: NewNestedSet_def)
  show ?thesis
    using assms(1,2)
    by (simp add: s0 consistent_def tree_consistent_def getters setters)
qed

lemma Add_Success_held:
  "fst (Add s (Some n) p) = Success \<Longrightarrow> case p of None \<Rightarrow> True | Some q \<Rightarrow> q \<in> set (nodes s)"
  by (auto simp: Add_def exists_node_iff split: option.splits if_splits)

lemma apply_operation_consistent:
  assumes "consistent s" "apply_operation s x = Some s'"
  shows "consistent s'"
proof (cases x)
  case (OpAdd n p)
  then show ?thesis
    using assms Add_consistent(2)[OF assms(1), of n p] Add_Success_held[of s n p]
    by (auto split: if_splits)
next
  case (OpDelete n)
  have "n \<noteq> rootNode s" if "fst (Delete s (Some n)) = Success"
    using that by (auto simp: Delete_def split: if_splits)
  then show ?thesis
    using OpDelete assms Delete_consistent(2)[OF assms(1), of n]
    by (auto split: if_splits)
next
  case (OpMove n p)
  then show ?thesis
    using assms Move_consistent[OF assms(1), of n p]
    by (auto simp: held_def split: if_splits)
qed

lemma run_consistent:
  "consistent s \<Longrightarrow> run s xs = Some s' \<Longrightarrow> consistent s'"
proof (induction xs arbitrary: s)
  case Nil
  then show ?case by simp
next
  case (Cons x xs)
  then show ?case
    by (auto split: option.splits dest: apply_operation_consistent)
qed

text \<open>
  C1. Start from a container built by \<^verbatim>\<open>NewNestedSet\<close> on a root node whose
  left bound and level are zero (the zero value of the Go struct), and run any
  sequence of calls that all return nil: \<^verbatim>\<open>Add\<close> of a node not yet held,
  \<^verbatim>\<open>Delete\<close> of a held node, \<^verbatim>\<open>Move\<close> of a held node under a held parent or
  nil. Then the container holds each reference once and the four invariants
  hold: left below right for every node; any two nodes disjoint or strictly
  nested; the level of every node is the number of other nodes strictly
  containing it; no two nodes share a bound.
\<close>

theorem operations_keep_tree_consistent:
  assumes "GetLeft h r = 0" and "GetLevel h r = 0"
    and "NewNestedSet h (Some r) = Returns s0"
    and "run s0 ops = Some s"
  shows "distinct (nodes s) \<and> tree_consistent s"
  using run_consistent[OF New_consistent[OF assms(1,2,3)] assms(4)]
  by (simp add: consistent_def)

theorem operations_keep_tree_consistent_witness:
  "GetLeft fresh_store 0 = 0 \<and> GetLevel fresh_store 0 = 0
   \<and> NewNestedSet fresh_store (Some 0) = Returns scn0
   \<and> (\<exists>s. run scn0 example_operations = Some s
          \<and> nodes s = [0, 3, 2]
          \<and> GetLeft (mem s) 2 = 1 \<and> GetRight (mem s) 2 = 4 \<and> GetLevel (mem s) 2 = 1
          \<and> GetLeft (mem s) 3 = 2 \<and> GetRight (mem s) 3 = 3 \<and> GetLevel (mem s) 3 = 2
          \<and> distinct (nodes s) \<and> tree_consistent s)"
proof -
  have z: "GetLeft fresh_store 0 = 0" "GetLevel fresh_store 0 = 0"
    by (simp_all add: fresh_store_def zero_node_def getters)
  have "\<exists>s. run scn0 example_operations = Some s
      \<and> nodes s = [0, 3, 2]
      \<and> GetLeft (mem s) 2 = 1 \<and> GetRight (mem s) 2 = 4 \<and> GetLevel (mem s) 2 = 1
      \<and> GetLeft (mem s) 3 = 2 \<and> GetRight (mem s) 3 = 3 \<and> GetLevel (mem s) 3 = 2"
    by (simp add: example_operations_def scn0_def held_def eval_defs)
  then obtain s where s: "run scn0 example_operations = Some s"
    "nodes s = [0, 3, 2]"
    "GetLeft (mem s) 2 = 1" "GetRight (mem s) 2 = 4" "GetLevel (mem s) 2 = 1"
    "GetLeft (mem s) 3 = 2" "GetRight (mem s) 3 = 3" "GetLevel (mem s) 3 = 2"
    by blast
  show ?thesis
    using operations_keep_tree_consistent[OF z new_scn0 s(1)] z new_scn0 s
    by blast
qed

section \<open>Round trips\<close>




section \<open>Parent\<close>

lemma level_grows_inwards:
  assumes lam: "laminar h S" and lev: "levelled h S" and fin: "finite S"
    and a: "a \<in> S" and b: "b \<in> S" and ab: "strictly_contains h a b"
  shows "GetLevel h a < GetLevel h b"
proof -
  have "insert a {c \<in> S. strictly_contains h c a} \<subseteq> {c \<in> S. strictly_contains h c b}"
    using a ab sc_trans by blast
  moreover have "finite {c \<in> S. strictly_contains h c b}" using fin by simp
  ultimately have "card (insert a {c \<in> S. strictly_contains h c a})
      \<le> card {c \<in> S. strictly_contains h c b}"
    by (rule card_mono[rotated])
  moreover have "card (insert a {c \<in> S. strictly_contains h c a})
      = Suc (card {c \<in> S. strictly_contains h c a})"
    using fin by (simp add: sc_irrefl)
  ultimately show ?thesis
    using lev a b by (simp add: levelled_def)
qed

lemma containers_nested:
  assumes lam: "laminar h S" and a: "a \<in> S" and b: "b \<in> S" and x: "x \<in> S"
    and ax: "strictly_contains h a x" and bx: "strictly_contains h b x" and ne: "a \<noteq> b"
  shows "strictly_contains h a b \<or> strictly_contains h b a"
  using laminar_pair[OF lam a b ne] ax bx laminar_left_right[OF lam x]
  by (auto simp: disjoint_intervals_def strictly_contains_def)

lemma direct_parent_exists:
  assumes lam: "laminar h S" and lev: "levelled h S" and fin: "finite S"
    and x: "x \<in> S" and r: "r \<in> S" and rx: "strictly_contains h r x"
  shows "\<exists>m\<in>S. strictly_contains h m x \<and> GetLevel h m = GetLevel h x - 1"
proof -
  define C where "C = {b \<in> S. strictly_contains h b x}"
  have finC: "finite C" and neC: "C \<noteq> {}" using fin r rx by (auto simp: C_def)
  define M where "M = Max (GetLeft h ` C)"
  have "M \<in> GetLeft h ` C" unfolding M_def using finC neC by (intro Max_in) auto
  then obtain m where m: "m \<in> C" "GetLeft h m = M" by auto
  have mx: "\<And>c. c \<in> C \<Longrightarrow> GetLeft h c \<le> GetLeft h m"
    unfolding m(2) M_def using finC by (intro Max_ge) auto
  have mS: "m \<in> S" and scm: "strictly_contains h m x" using m(1) by (auto simp: C_def)
  have "{b \<in> S. strictly_contains h b m} = C - {m}"
  proof (intro set_eqI iffI)
    fix b assume "b \<in> {b \<in> S. strictly_contains h b m}"
    then show "b \<in> C - {m}"
      using scm sc_trans[of h b m x] by (auto simp: C_def sc_irrefl)
  next
    fix c assume "c \<in> C - {m}"
    then have c: "c \<in> S" "strictly_contains h c x" "c \<noteq> m" "c \<in> C" by (auto simp: C_def)
    have "\<not> strictly_contains h m c" using mx[OF c(4)] by (auto simp: strictly_contains_def)
    then show "c \<in> {b \<in> S. strictly_contains h b m}"
      using containers_nested[OF lam c(1) mS x c(2) scm c(3)] c(1) by simp
  qed
  then have "card {b \<in> S. strictly_contains h b m} = card C - 1"
    using m(1) finC by simp
  moreover have "card C \<ge> 1" using finC neC by (simp add: Suc_leI card_gt_0_iff)
  ultimately have "GetLevel h m = GetLevel h x - 1"
    using lev mS x by (simp add: levelled_def C_def)
  then show ?thesis using mS scm by blast
qed

text \<open>
  The lookup goes by the coordinates stored in its argument, whether the
  argument is held or not: it finds nothing exactly when no held node encloses
  those coordinates one level up.
\<close>

lemma parent_None_iff:
  "parent s x = None \<longleftrightarrow>
     (\<forall>n\<in>set (nodes s). \<not> (GetLeft (mem s) n \<le> GetLeft (mem s) x
           \<and> GetRight (mem s) n \<ge> GetRight (mem s) x
           \<and> GetLevel (mem s) n = GetLevel (mem s) x - 1))"
  by (auto simp: parent_def find_None_iff)

text \<open>
  In a consistent collection no held node has a negative level, so the lookup
  finds nothing for a node that carries a level of zero or less, held or not:
  the root, and any node still at its zero value.
\<close>

lemma Parent_of_unplaced_node:
  assumes "consistent s" and "GetLevel (mem s) x \<le> 0"
  shows "Parent s (Some x) = Returns None"
proof -
  have "\<forall>n\<in>set (nodes s). 0 \<le> GetLevel (mem s) n"
    using assms(1) by (simp add: consistent_iff levelled_def)
  then have "\<forall>n\<in>set (nodes s). GetLevel (mem s) n \<noteq> GetLevel (mem s) x - 1"
    using assms(2) by fastforce
  then show ?thesis
    by (simp add: Parent_def parent_None_iff)
qed

text \<open>
  What the code does for the nodes it holds. In a consistent collection
  \<^verbatim>\<open>Parent\<close> returns nil for the root; for every other held node it returns a
  held node whose interval strictly contains the node's interval and whose level
  is one less, and that node is the only held node with these two properties.
\<close>

theorem Parent_in_consistent_collection:
  assumes c: "consistent s"
  shows "Parent s (Some (rootNode s)) = Returns None
    \<and> (\<forall>x\<in>set (nodes s). x \<noteq> rootNode s \<longrightarrow>
          (\<exists>p\<in>set (nodes s). Parent s (Some x) = Returns (Some p)
              \<and> strictly_contains (mem s) p x
              \<and> GetLevel (mem s) p = GetLevel (mem s) x - 1
              \<and> (\<forall>q\<in>set (nodes s).
                    strictly_contains (mem s) q x \<and> GetLevel (mem s) q = GetLevel (mem s) x - 1
                    \<longrightarrow> q = p)))"
proof (intro conjI ballI impI)
  define S where "S = set (nodes s)"
  define h where "h = mem s"
  have d: "distinct (nodes s)" and root: "rooted h S (rootNode s)"
    and lam: "laminar h S" and lev: "levelled h S"
    using c by (simp_all add: consistent_iff S_def h_def)
  have fin: "finite S" by (simp add: S_def)
  have nonneg: "\<forall>n\<in>set (nodes s). 0 \<le> GetLevel (mem s) n"
    using lev by (simp add: levelled_def S_def h_def)
  have "GetLevel (mem s) (rootNode s) = 0"
    using root_level[OF root lev] by (simp add: h_def)
  then have "\<forall>n\<in>set (nodes s). GetLevel (mem s) n \<noteq> GetLevel (mem s) (rootNode s) - 1"
    using nonneg by fastforce
  then show "Parent s (Some (rootNode s)) = Returns None"
    by (simp add: Parent_def parent_def find_None_iff)
  fix x assume x: "x \<in> set (nodes s)" "x \<noteq> rootNode s"
  have xS: "x \<in> S" using x by (simp add: S_def)
  have rS: "rootNode s \<in> S" and rx: "strictly_contains h (rootNode s) x"
    using root xS x(2) by (auto simp: rooted_def)
  let ?Q = "\<lambda>n. GetLeft h n \<le> GetLeft h x \<and> GetRight h n \<ge> GetRight h x
      \<and> GetLevel h n = GetLevel h x - 1"
  have Qsc: "strictly_contains h n x" if "n \<in> S" "?Q n" for n
  proof -
    have "n \<noteq> x" using that by auto
    then show ?thesis
      using laminar_bounds_differ[OF lam that(1) xS] that(2)
      by (auto simp: strictly_contains_def)
  qed
  have uniq: "a = b"
    if "a \<in> S" "b \<in> S" "strictly_contains h a x" "strictly_contains h b x"
      "GetLevel h a = GetLevel h b" for a b
  proof (rule ccontr)
    assume "a \<noteq> b"
    then have "strictly_contains h a b \<or> strictly_contains h b a"
      using containers_nested[OF lam that(1,2) xS that(3,4)] by simp
    then show False
      using level_grows_inwards[OF lam lev fin that(1,2)]
        level_grows_inwards[OF lam lev fin that(2,1)] that(5) by auto
  qed
  obtain m where m: "m \<in> S" "strictly_contains h m x" "GetLevel h m = GetLevel h x - 1"
    using direct_parent_exists[OF lam lev fin xS rS rx] by blast
  have "?Q m" using m by (auto simp: strictly_contains_def)
  then have "find ?Q (nodes s) \<noteq> None"
    using m(1) by (auto simp: find_None_iff S_def)
  then obtain p where p: "find ?Q (nodes s) = Some p" by auto
  then have pS: "p \<in> S" and Qp: "?Q p"
    by (auto simp: find_Some_iff S_def)
  have par: "Parent s (Some x) = Returns (Some p)"
    using p by (simp add: Parent_def parent_def h_def)
  have "\<forall>q\<in>S. strictly_contains h q x \<and> GetLevel h q = GetLevel h x - 1 \<longrightarrow> q = p"
    using uniq[OF _ pS _ Qsc[OF pS Qp]] Qp by auto
  then show "\<exists>p\<in>set (nodes s). Parent s (Some x) = Returns (Some p)
              \<and> strictly_contains (mem s) p x
              \<and> GetLevel (mem s) p = GetLevel (mem s) x - 1
              \<and> (\<forall>q\<in>set (nodes s).
                    strictly_contains (mem s) q x \<and> GetLevel (mem s) q = GetLevel (mem s) x - 1
                    \<longrightarrow> q = p)"
    using par pS Qsc[OF pS Qp] Qp unfolding S_def h_def by blast
qed

theorem Parent_in_consistent_collection_witness:
  "consistent scn3 \<and> rootNode scn3 = 0 \<and> 3 \<in> set (nodes scn3)
   \<and> Parent scn3 (Some 0) = Returns None
   \<and> Parent scn3 (Some 3) = Returns (Some 1)
   \<and> strictly_contains (mem scn3) 1 3"
proof -
  have z: "GetLeft fresh_store 0 = 0" "GetLevel fresh_store 0 = 0"
    by (simp_all add: fresh_store_def zero_node_def getters)
  have "run scn0 [OpAdd 1 None, OpAdd 2 None, OpAdd 3 (Some 1)] = Some scn3"
    by (simp add: scn3_def scn2_def scn1_def scn0_def eval_defs)
  then have c: "consistent scn3"
    using run_consistent[OF New_consistent[OF z new_scn0]] by blast
  have r: "rootNode scn3 = 0" "3 \<in> set (nodes scn3)"
    by (simp_all add: scn3_def scn2_def scn1_def scn0_def eval_defs)
  have p: "Parent scn3 (Some 3) = Returns (Some 1)"
    by (simp add: Parent_def scn3_def scn2_def scn1_def scn0_def eval_defs)
  have "Parent scn3 (Some (rootNode scn3)) = Returns None"
    by (rule Parent_in_consistent_collection[OF c, THEN conjunct1])
  moreover have "strictly_contains (mem scn3) 1 3"
    using Parent_in_consistent_collection[OF c, THEN conjunct2, rule_format, of 3]
      r p by auto
  ultimately show ?thesis
    using c r p by simp
qed

text \<open>
  The collection in which A and B were added and A was deleted is consistent.
\<close>

lemma after_delete_consistent: "consistent after_delete"
proof -
  have z: "GetLeft fresh_store 0 = 0" "GetLevel fresh_store 0 = 0"
    by (simp_all add: fresh_store_def zero_node_def getters)
  have "run scn0 [OpAdd 1 None, OpAdd 2 None, OpDelete 1] = Some after_delete"
    by (simp add: after_delete_def scn2_def scn1_def scn0_def eval_defs)
  then show ?thesis
    using run_consistent[OF New_consistent[OF z new_scn0]] by blast
qed

text \<open>
  C5. \<^verbatim>\<open>Parent\<close> has no membership check. After A and B are added and A is
  deleted, the collection holds R at 0..3 and B at 1..2; A is not held and still
  carries left 1, right 2 and level 1; \<^verbatim>\<open>Parent(A)\<close> returns the root, where the
  claim has nil for a node that is not in the collection.
\<close>

theorem Parent_of_deleted_node:
  "nodes after_delete = [0, 2] \<and> rootNode after_delete = 0 \<and> 1 \<notin> set (nodes after_delete)
   \<and> GetLeft (mem after_delete) 0 = 0 \<and> GetRight (mem after_delete) 0 = 3
   \<and> GetLevel (mem after_delete) 0 = 0
   \<and> GetLeft (mem after_delete) 1 = 1 \<and> GetRight (mem after_delete) 1 = 2
   \<and> GetLevel (mem after_delete) 1 = 1
   \<and> Parent after_delete (Some 1) = Returns (Some 0)"
  by (simp add: Parent_def after_delete_def scn2_def scn1_def scn0_def eval_defs)

section \<open>Moving a node away and back\<close>

text \<open>What a successful \<^verbatim>\<open>Move\<close> does to the moved node and to a node outside its branch.\<close>

lemma Move_effect:
  assumes d: "distinct (nodes s)" and nd: "nd \<in> set (nodes s)"
    and mv: "Move s (Some nd) parent0 = (Success, s')"
    and p: "p = (case parent0 of None \<Rightarrow> rootNode s | Some q \<Rightarrow> q)"
    and nl: "nl = GetLeft (mem s) nd" and nr: "nr = GetRight (mem s) nd"
    and rn: "rn = GetRight (mem s) p - 1"
    and k: "k = (if rn < nr then rn - nl + 1 else rn - nl + 1 - (nr - nl + 1))"
    and lr: "nl < nr"
  shows "GetLeft (mem s') nd = nl + k" and "GetRight (mem s') nd = nr + k"
    and "GetLevel (mem s') nd = GetLevel (mem s) p + 1"
    and "distinct (nodes s')" and "set (nodes s') = set (nodes s)"
    and "\<And>a. a \<in> set (nodes s) \<Longrightarrow> \<not> (nl \<le> GetLeft (mem s) a \<and> GetRight (mem s) a \<le> nr) \<Longrightarrow>
           GetLevel (mem s') a = GetLevel (mem s) a
           \<and> GetRight (mem s') a =
               (if rn < nr
                then (if GetRight (mem s) a < nl \<and> GetRight (mem s) a > rn
                      then GetRight (mem s) a + (nr - nl + 1) else GetRight (mem s) a)
                else (if GetRight (mem s) a > nr \<and> GetRight (mem s) a \<le> rn
                      then GetRight (mem s) a - (nr - nl + 1) else GetRight (mem s) a))"
proof -
  define g where "g = (if rn < nr then shift_up_node nl rn (nr - nl + 1)
                 else shift_down_node nr rn (nr - nl + 1))"
  define kl where "kl = GetLevel (mem s) p - GetLevel (mem s) nd + 1"
  have ok: "fst (Move s (Some nd) parent0) = Success" by (simp add: mv)
  note chk = Move_Success_checks[OF ok p]
  obtain cp where cp: "parent s nd = Some cp" "cp \<noteq> p" using chk(3) by blast
  have st: "Move s (Some nd) parent0 =
     (Success, s\<lparr>nodes := sort_key (GetLeft (mem s)) (nodes s),
                 mem := (\<lambda>m. if m \<in> set (nodes s)
                              then (if nl \<le> GetLeft (mem s) m \<and> GetRight (mem s) m \<le> nr
                                    then translate_node k kl (g (mem s m)) else g (mem s m))
                              else mem s m)\<rparr>)"
    by (rule Move_store[OF d nd chk(1) p chk(2) cp nl nr rn g_def k kl_def])
  have s': "s' = s\<lparr>nodes := sort_key (GetLeft (mem s)) (nodes s),
                 mem := (\<lambda>m. if m \<in> set (nodes s)
                              then (if nl \<le> GetLeft (mem s) m \<and> GetRight (mem s) m \<le> nr
                                    then translate_node k kl (g (mem s m)) else g (mem s m))
                              else mem s m)\<rparr>"
    using mv st by simp
  have gn: "NodeLeft (g (mem s nd)) = nl" "NodeRight (g (mem s nd)) = nr"
    "NodeLevel (g (mem s nd)) = GetLevel (mem s) nd"
    using lr by (auto simp: g_def shift_up_node_def shift_down_node_def nl nr getters)
  have me: "mem s' nd = translate_node k kl (g (mem s nd))"
    using nd by (simp add: s' nl nr)
  show "GetLeft (mem s') nd = nl + k" "GetRight (mem s') nd = nr + k"
    "GetLevel (mem s') nd = GetLevel (mem s) p + 1"
    by (simp_all add: me translate_node_def gn getters kl_def)
  show "distinct (nodes s')" "set (nodes s') = set (nodes s)"
    using d by (simp_all add: s')
  fix a assume a: "a \<in> set (nodes s)" "\<not> (nl \<le> GetLeft (mem s) a \<and> GetRight (mem s) a \<le> nr)"
  have "mem s' a = g (mem s a)"
    using a by (auto simp: s')
  then show "GetLevel (mem s') a = GetLevel (mem s) a
           \<and> GetRight (mem s') a =
               (if rn < nr
                then (if GetRight (mem s) a < nl \<and> GetRight (mem s) a > rn
                      then GetRight (mem s) a + (nr - nl + 1) else GetRight (mem s) a)
                else (if GetRight (mem s) a > nr \<and> GetRight (mem s) a \<le> rn
                      then GetRight (mem s) a - (nr - nl + 1) else GetRight (mem s) a))"
    by (auto simp: g_def shift_up_node_def shift_down_node_def getters)
qed

lemma parent_Some:
  "parent s x = Some a \<Longrightarrow>
   a \<in> set (nodes s) \<and> GetLeft (mem s) a \<le> GetLeft (mem s) x
   \<and> GetRight (mem s) a \<ge> GetRight (mem s) x \<and> GetLevel (mem s) a = GetLevel (mem s) x - 1"
  by (auto simp: parent_def find_Some_iff)

text \<open>
  C6, as the code has it. In a consistent collection, let N be a held node
  whose parent lookup gives A, and let N be moved under another held parent (or
  nil, the root) and then moved back under A, both calls returning nil. Then N
  has the level it had before the first call; and when N was the last child of
  A (its right bound plus one was the right bound of A), N also has the left
  and right bounds it had before the first call.
\<close>

theorem Move_there_and_back:
  assumes c: "consistent s" and n: "n \<in> set (nodes s)"
    and a: "parent s n = Some a"
    and b: "held s pb"
    and m1: "Move s (Some n) pb = (Success, s1)"
    and m2: "Move s1 (Some n) (Some a) = (Success, s2)"
  shows "GetLevel (mem s2) n = GetLevel (mem s) n
    \<and> (GetRight (mem s) n + 1 = GetRight (mem s) a \<longrightarrow>
         GetLeft (mem s2) n = GetLeft (mem s) n \<and> GetRight (mem s2) n = GetRight (mem s) n)"
proof -
  define S where "S = set (nodes s)"
  define p where "p = (case pb of None \<Rightarrow> rootNode s | Some q \<Rightarrow> q)"
  define nl where "nl = GetLeft (mem s) n"
  define nr where "nr = GetRight (mem s) n"
  define pr where "pr = GetRight (mem s) p"
  define k1 where "k1 = (if pr - 1 < nr then pr - 1 - nl + 1 else pr - 1 - nl + 1 - (nr - nl + 1))"
  define ar1 where "ar1 = GetRight (mem s1) a"
  define k2 where "k2 = (if ar1 - 1 < nr + k1 then ar1 - 1 - (nl + k1) + 1
                         else ar1 - 1 - (nl + k1) + 1 - ((nr + k1) - (nl + k1) + 1))"
  have d: "distinct (nodes s)" and root: "rooted (mem s) S (rootNode s)"
    and lam: "laminar (mem s) S" and lev: "levelled (mem s) S"
    using c by (simp_all add: consistent_iff S_def)
  have nS: "n \<in> S" using n by (simp add: S_def)
  have pS: "p \<in> S"
    using b root by (cases pb) (auto simp: p_def S_def rooted_def held_def)
  have lr: "nl < nr" using laminar_left_right[OF lam nS] by (simp add: nl_def nr_def)
  note pa = parent_Some[OF a]
  have aS: "a \<in> S" using pa by (simp add: S_def)
  have an: "a \<noteq> n" using pa by auto
  have aout: "\<not> (nl \<le> GetLeft (mem s) a \<and> GetRight (mem s) a \<le> nr)"
    using pa laminar_bounds_differ(1)[OF lam aS nS an] by (auto simp: nl_def nr_def)
  have ok1: "fst (Move s (Some n) pb) = Success" by (simp add: m1)
  note chk1 = Move_Success_checks[OF ok1 p_def]
  have ap: "a \<noteq> p" using chk1(3) a by auto
  have pn: "p \<noteq> n" using chk1(2) by auto
  have pE: "pr < nl \<or> pr > nr"
    using laminar_pair[OF lam pS nS pn] laminar_left_right[OF lam pS] chk1(2)
    by (auto simp: pr_def nl_def nr_def disjoint_intervals_def strictly_contains_def)
  have rn1: "pr - 1 = GetRight (mem s) p - 1" by (simp add: pr_def)
  note e1 = Move_effect[OF d n m1 p_def nl_def nr_def rn1 k1_def lr]
  have n1: "GetLeft (mem s1) n = nl + k1" "GetRight (mem s1) n = nr + k1"
    "GetLevel (mem s1) n = GetLevel (mem s) p + 1"
    and d1: "distinct (nodes s1)" and set1: "set (nodes s1) = set (nodes s)"
    using e1(1-5) by simp_all
  have aS': "a \<in> set (nodes s)" using aS by (simp add: S_def)
  have a1: "GetLevel (mem s1) a = GetLevel (mem s) a"
    "ar1 = (if pr - 1 < nr
                then (if GetRight (mem s) a < nl \<and> GetRight (mem s) a > pr - 1
                      then GetRight (mem s) a + (nr - nl + 1) else GetRight (mem s) a)
                else (if GetRight (mem s) a > nr \<and> GetRight (mem s) a \<le> pr - 1
                      then GetRight (mem s) a - (nr - nl + 1) else GetRight (mem s) a))"
    using e1(6)[OF aS' aout] by (simp_all add: ar1_def)
  have nin1: "n \<in> set (nodes s1)" using n set1 by simp
  have lr1: "nl + k1 < nr + k1" using lr by simp
  have p2: "a = (case Some a of None \<Rightarrow> rootNode s1 | Some q \<Rightarrow> q)" by simp
  have rn2: "ar1 - 1 = GetRight (mem s1) a - 1" by (simp add: ar1_def)
  note e2 = Move_effect[OF d1 nin1 m2 p2 n1(1)[symmetric] n1(2)[symmetric] rn2 k2_def lr1]
  have n2: "GetLeft (mem s2) n = nl + k1 + k2" "GetRight (mem s2) n = nr + k1 + k2"
    "GetLevel (mem s2) n = GetLevel (mem s1) a + 1"
    using e2(1-3) by simp_all
  have lvl: "GetLevel (mem s2) n = GetLevel (mem s) n"
    using n2(3) a1(1) pa by simp
  have cancel: "k1 + k2 = 0" if lc: "nr + 1 = GetRight (mem s) a"
  proof -
    have "pr \<noteq> nr + 1"
      using laminar_bounds_differ(4)[OF lam aS pS ap] lc by (simp add: pr_def)
    then show ?thesis
      using pE lr lc a1(2) by (auto simp: k1_def k2_def)
  qed
  show ?thesis
    using lvl cancel n2(1,2) by (auto simp: nl_def nr_def)
qed

theorem Move_there_and_back_witness:
  "consistent scn3 \<and> 3 \<in> set (nodes scn3) \<and> parent scn3 3 = Some 1 \<and> held scn3 (Some 2)
   \<and> fst (Move scn3 (Some 3) (Some 2)) = Success
   \<and> fst (Move (snd (Move scn3 (Some 3) (Some 2))) (Some 3) (Some 1)) = Success
   \<and> GetRight (mem scn3) 3 + 1 = GetRight (mem scn3) 1
   \<and> GetLeft (mem (snd (Move (snd (Move scn3 (Some 3) (Some 2))) (Some 3) (Some 1)))) 3
       = GetLeft (mem scn3) 3
   \<and> GetRight (mem (snd (Move (snd (Move scn3 (Some 3) (Some 2))) (Some 3) (Some 1)))) 3
       = GetRight (mem scn3) 3
   \<and> GetLevel (mem (snd (Move (snd (Move scn3 (Some 3) (Some 2))) (Some 3) (Some 1)))) 3
       = GetLevel (mem scn3) 3"
proof -
  have c: "consistent scn3" by code_simp
  have v: "3 \<in> set (nodes scn3)" "parent scn3 3 = Some 1" "held scn3 (Some 2)"
    "GetRight (mem scn3) 3 + 1 = GetRight (mem scn3) 1"
    by code_simp+
  have ok1: "fst (Move scn3 (Some 3) (Some 2)) = Success" by code_simp
  have ok2: "fst (Move (snd (Move scn3 (Some 3) (Some 2))) (Some 3) (Some 1)) = Success"
    by code_simp
  have m1: "Move scn3 (Some 3) (Some 2) = (Success, snd (Move scn3 (Some 3) (Some 2)))"
    using ok1 by (simp add: prod_eq_iff)
  have m2: "Move (snd (Move scn3 (Some 3) (Some 2))) (Some 3) (Some 1)
      = (Success, snd (Move (snd (Move scn3 (Some 3) (Some 2))) (Some 3) (Some 1)))"
    using ok2 by (simp add: prod_eq_iff)
  show ?thesis
    using Move_there_and_back[OF c v(1) v(2) v(3) m1 m2] c v ok1 ok2
    by blast
qed

text \<open>
  C6, as stated, fails when N is not the last child of A, since \<^verbatim>\<open>Move\<close> places
  the node last under its new parent: with N at 2..3 and S at 4..5 under A,
  moving N under B and back under A leaves N at 4..5.
\<close>

theorem Move_there_and_back_counterexample:
  "consistent siblings \<and> 2 \<in> set (nodes siblings) \<and> 4 \<in> set (nodes siblings)
   \<and> parent siblings 2 = Some 1
   \<and> Move siblings (Some 2) (Some 4) = (Success, moved_out)
   \<and> Move moved_out (Some 2) (Some 1) = (Success, moved_back)
   \<and> GetLeft (mem siblings) 2 = 2 \<and> GetRight (mem siblings) 2 = 3
   \<and> GetLeft (mem moved_back) 2 = 4 \<and> GetRight (mem moved_back) 2 = 5"
proof -
  have c: "consistent siblings" by code_simp
  have v: "2 \<in> set (nodes siblings)" "4 \<in> set (nodes siblings)" "parent siblings 2 = Some 1"
    "GetLeft (mem siblings) 2 = 2" "GetRight (mem siblings) 2 = 3"
    by code_simp+
  have ok1: "fst (Move siblings (Some 2) (Some 4)) = Success" by code_simp
  have ok2: "fst (Move moved_out (Some 2) (Some 1)) = Success" by code_simp
  have w: "GetLeft (mem moved_back) 2 = 4" "GetRight (mem moved_back) 2 = 5"
    by code_simp+
  have m1: "Move siblings (Some 2) (Some 4) = (Success, moved_out)"
    using ok1 by (simp add: prod_eq_iff moved_out_def)
  have m2: "Move moved_out (Some 2) (Some 1) = (Success, moved_back)"
    using ok2 by (simp add: prod_eq_iff moved_back_def)
  show ?thesis
    using c v w m1 m2 by simp
qed

section \<open>Coordinates stay small\<close>

text \<open>
  The root keeps left bound 0, and its right bound grows by at most 2 in each
  call; every other held node lies inside the root's interval. So after \<open>k\<close>
  calls on a new container every bound lies between 0 and \<open>2 * k + 1\<close>, far
  from the limits of \<^verbatim>\<open>int64\<close> for any number of calls a program can make.
\<close>

lemma held_inside_root:
  assumes "consistent s" "a \<in> set (nodes s)"
  shows "GetLeft (mem s) (rootNode s) \<le> GetLeft (mem s) a"
    and "GetRight (mem s) a \<le> GetRight (mem s) (rootNode s)"
    and "GetLeft (mem s) a < GetRight (mem s) a"
  using assms
  by (cases "a = rootNode s"; auto simp: consistent_def tree_consistent_def strictly_contains_def)+

lemma apply_operation_root_within:
  assumes rw: "root_within s k" and ap: "apply_operation s x = Some s'"
  shows "root_within s' (k + 2)"
proof -
  define r where "r = rootNode s"
  have c: "consistent s" and l0: "GetLeft (mem s) r = 0" and rk: "GetRight (mem s) r \<le> k"
    using rw by (simp_all add: root_within_def r_def)
  have c': "consistent s'" by (rule apply_operation_consistent[OF c ap])
  have d: "distinct (nodes s)" and rS: "r \<in> set (nodes s)"
    using c by (simp_all add: consistent_def r_def)
  note inside = held_inside_root[OF c, unfolded r_def[symmetric]]
  have "rootNode s' = r \<and> GetLeft (mem s') r = 0 \<and> GetRight (mem s') r \<le> k + 2"
  proof (cases x)
    case (OpAdd n p)
    then have nn: "n \<notin> set (nodes s)" and ok: "fst (Add s (Some n) p) = Success"
      and s': "s' = snd (Add s (Some n) p)"
      using ap by (auto split: if_splits)
    define q where "q = (case p of None \<Rightarrow> rootNode s | Some q \<Rightarrow> q)"
    have qS: "q \<in> set (nodes s)"
      using Add_Success_held[OF ok] rS by (cases p) (auto simp: q_def r_def)
    have ip: "0 < GetRight (mem s) q" using inside(1,3)[OF qS] l0 by simp
    have rn: "r \<noteq> n" using rS nn by auto
    show ?thesis
      unfolding s' Add_store[OF d Add_Success_held[OF ok] q_def refl refl]
      using rS rn ip l0 rk
      by (auto simp: r_def widen_node_def getters setters)
  next
    case (OpDelete n)
    then have n: "n \<in> set (nodes s)" and ok: "fst (Delete s (Some n)) = Success"
      and s': "s' = snd (Delete s (Some n))"
      using ap by (auto split: if_splits)
    have nr: "n \<noteq> rootNode s"
      using ok by (auto simp: Delete_def split: if_splits)
    have "GetLeft (mem s) n > 0"
      using c n nr l0 by (auto simp: consistent_def strictly_contains_def r_def)
    then show ?thesis
      unfolding s' Delete_store[OF d n nr refl refl]
      using rS l0 rk inside(3)[OF n]
      by (auto simp: r_def close_node_def survives_def getters)
  next
    case (OpMove n p)
    then have n: "n \<in> set (nodes s)" and hp: "held s p"
      and ok: "fst (Move s (Some n) p) = Success"
      and s': "s' = snd (Move s (Some n) p)"
      using ap by (auto split: if_splits)
    define q where "q = (case p of None \<Rightarrow> rootNode s | Some q \<Rightarrow> q)"
    have qS: "q \<in> set (nodes s)"
      using hp rS by (cases p) (auto simp: q_def r_def held_def)
    note chk = Move_Success_checks[OF ok q_def]
    obtain cp where cp: "parent s n = Some cp" "cp \<noteq> q" using chk(3) by blast
    have lv: "GetLevel (mem s) r = 0"
      using c root_level[of "mem s" "set (nodes s)" r] by (simp add: consistent_iff r_def)
    have nr: "n \<noteq> r" using chk(1) lv by auto
    have in_n: "0 < GetLeft (mem s) n" "GetRight (mem s) n < GetRight (mem s) r"
      using c n nr l0 by (auto simp: consistent_def strictly_contains_def r_def)
    have in_q: "0 < GetRight (mem s) q" "GetRight (mem s) q \<le> GetRight (mem s) r"
      using inside(1,2,3)[OF qS] l0 by simp_all
    show ?thesis
      unfolding s' Move_store[OF d n chk(1) q_def chk(2) cp refl refl refl refl refl refl]
      using rS l0 rk in_n in_q inside(3)[OF n]
      by (auto simp: r_def shift_up_node_def shift_down_node_def getters)
  qed
  then show ?thesis using c' by (simp add: root_within_def r_def)
qed

lemma run_root_within:
  "root_within s k \<Longrightarrow> run s xs = Some s' \<Longrightarrow> root_within s' (k + 2 * int (length xs))"
proof (induction xs arbitrary: s k)
  case Nil
  then show ?case by simp
next
  case (Cons x xs)
  then obtain s1 where s1: "apply_operation s x = Some s1" "run s1 xs = Some s'"
    by (auto split: option.splits)
  have "root_within s' (k + 2 + 2 * int (length xs))"
    by (rule Cons.IH[OF apply_operation_root_within[OF Cons.prems(1) s1(1)] s1(2)])
  then show ?case by (simp add: algebra_simps)
qed

lemma coordinates_stay_small:
  assumes "GetLeft h r = 0" and "GetLevel h r = 0"
    and "NewNestedSet h (Some r) = Returns s0"
    and "run s0 ops = Some s"
    and "a \<in> set (nodes s)"
  shows "0 \<le> GetLeft (mem s) a" and "GetLeft (mem s) a < GetRight (mem s) a"
    and "GetRight (mem s) a \<le> 2 * int (length ops) + 1"
proof -
  have s0: "s0 = \<lparr>mem = SetRight r 1 h, nodes = [r], rootNode = r, maxId = 0\<rparr>"
    using assms(3) by (simp add: NewNestedSet_def)
  have "root_within s0 1"
    using New_consistent[OF assms(1,2,3)] assms(1) by (simp add: root_within_def s0 getters setters)
  then have rw: "root_within s (1 + 2 * int (length ops))"
    by (rule run_root_within[OF _ assms(4)])
  then have c: "consistent s" by (simp add: root_within_def)
  show "0 \<le> GetLeft (mem s) a" "GetLeft (mem s) a < GetRight (mem s) a"
    "GetRight (mem s) a \<le> 2 * int (length ops) + 1"
    using held_inside_root[OF c assms(5)] rw by (simp_all add: root_within_def)
qed

end
